theory Spec2Isabelle
  imports Main "HOL-Library.Word" "HOL-Library.AList"
begin

section \<open>Common types\<close>

text \<open>
  \<open>page_id_t\<close> and \<open>frame_id_t\<close> are \<open>int32_t\<close>, read in two's complement (\<open>sint\<close>, \<open><s\<close>);
  \<open>size_t\<close> is a 64-bit unsigned word.
\<close>

type_synonym page_id_t = "32 word"
type_synonym frame_id_t = "32 word"
type_synonym size_t = "64 word"

text \<open>
  Modelled from the spec: the sentinels \<open>INVALID_PAGE_ID\<close> and \<open>INVALID_FRAME_ID\<close>
  (\<open>common/config.h\<close> is missing); section 6 gives \<open>-1\<close> for both.
\<close>

definition INVALID_PAGE_ID :: page_id_t where
  "INVALID_PAGE_ID = - 1"

definition INVALID_FRAME_ID :: frame_id_t where
  "INVALID_FRAME_ID = - 1"

text \<open>
  Every way the C++ can leave the normal control flow is a value: a thrown
  \<open>bustub::Exception\<close> with its message, an index outside the frame array, a null pointer
  that is dereferenced, \<open>front\<close>/\<open>pop_front\<close> on an empty \<open>std::list\<close>, and a latch
  that is held, on which the single thread of the model waits for ever.
\<close>

datatype error =
    Exception string
  | OutOfBounds
  | NullDereference
  | EmptyList
  | Blocked

section \<open>LRU-K replacer (\<open>lru_k_replacer.cpp\<close>)\<close>

text \<open>
  \<open>LRUKNode\<close>: the history holds the timestamps of the last accesses, oldest first.
  The class is declared in \<open>buffer/lru_k_replacer.h\<close>, which is not among the sources; the
  fields are those that \<open>lru_k_replacer.cpp\<close> uses. A node that \<open>RecordAccess\<close> makes starts
  as not evictable: \<open>RecordAccess\<close> leaves \<open>curr_size_\<close>, the number of evictable nodes, as
  it is.
\<close>

record LRUKNode =
  history :: "size_t list"
  node_k :: size_t
  fid :: frame_id_t
  is_evictable :: bool

text \<open>
  \<open>node_store\<close> is a \<open>std::unordered_map\<close>: an association list with \<open>map_of\<close> for
  \<open>find\<close>, \<open>AList.update\<close> for \<open>operator[]\<close> and \<open>AList.delete\<close> for \<open>erase\<close>. The order
  of the list is the (unspecified) iteration order; theorems hold for every order.
  The replacer's own \<open>k_\<close> is the field \<open>replacer_k\<close> (the node has a \<open>k_\<close> too).
\<close>

record LRUKReplacer =
  node_store :: "(frame_id_t \<times> LRUKNode) list"
  current_timestamp :: size_t
  curr_size :: size_t
  replacer_size :: size_t
  replacer_k :: size_t

definition LRUKReplacer_new :: "size_t \<Rightarrow> size_t \<Rightarrow> LRUKReplacer" where
  "LRUKReplacer_new num_frames k =
     \<lparr>node_store = [], current_timestamp = 0, curr_size = 0,
      replacer_size = num_frames, replacer_k = k\<rparr>"

text \<open>
  \<open>RecordAccess\<close>: the guard compares the signed \<open>frame_id\<close> with
  \<open>static_cast<int32_t>(replacer_size_)\<close>, the low 32 bits of the size read signed.
\<close>

definition RecordAccess :: "LRUKReplacer \<Rightarrow> frame_id_t \<Rightarrow> error + LRUKReplacer" where
  "RecordAccess r frame_id =
     (if (ucast (replacer_size r) :: 32 word) <s frame_id
      then Inl (Exception ''RecordAccess: frame_id is bigger than replacer_size_'')
      else
        (case map_of (node_store r) frame_id of
           None \<Rightarrow>
             Inr (r\<lparr>node_store :=
                       AList.update frame_id
                         \<lparr>history = [current_timestamp r], node_k = 1, fid = frame_id,
                          is_evictable = False\<rparr> (node_store r),
                     current_timestamp := current_timestamp r + 1\<rparr>)
         | Some n \<Rightarrow>
             (if node_k n = replacer_k r \<and> history n = [] then Inl EmptyList
              else
                let n1 = (if node_k n = replacer_k r
                          then n\<lparr>history := tl (history n), node_k := node_k n - 1\<rparr> else n);
                    n2 = n1\<lparr>history := history n1 @ [current_timestamp r], node_k := node_k n1 + 1\<rparr>
                in Inr (r\<lparr>node_store := AList.update frame_id n2 (node_store r),
                          current_timestamp := current_timestamp r + 1\<rparr>))))"

definition SetEvictable :: "LRUKReplacer \<Rightarrow> frame_id_t \<Rightarrow> bool \<Rightarrow> error + LRUKReplacer" where
  "SetEvictable r frame_id set_evictable =
     (case map_of (node_store r) frame_id of
        None \<Rightarrow> Inl (Exception ''SetEvictable: frame id is invalid'')
      | Some n \<Rightarrow>
          Inr (r\<lparr>curr_size :=
                    (if is_evictable n \<and> \<not> set_evictable then curr_size r - 1
                     else if \<not> is_evictable n \<and> set_evictable then curr_size r + 1
                     else curr_size r),
                  node_store :=
                    AList.update frame_id (n\<lparr>is_evictable := set_evictable\<rparr>) (node_store r)\<rparr>))"

definition Remove :: "LRUKReplacer \<Rightarrow> frame_id_t \<Rightarrow> error + LRUKReplacer" where
  "Remove r frame_id =
     (case map_of (node_store r) frame_id of
        None \<Rightarrow> Inr r
      | Some n \<Rightarrow>
          (if \<not> is_evictable n
           then Inl (Exception ''Remove: is called on a non-evictable frame'')
           else Inr (r\<lparr>node_store := AList.delete frame_id (node_store r),
                       curr_size := curr_size r - 1\<rparr>)))"

definition Size :: "LRUKReplacer \<Rightarrow> size_t" where
  "Size r = curr_size r"

text \<open>
  \<open>Evict\<close>. The loop state is \<open>(found, diff, earliest_timestamp, *frame_id)\<close>; one step is
  the body of the \<open>for\<close> loop for the entry \<open>(f, n)\<close> of the node store. \<open>*history_.begin()\<close>
  on an empty history is \<open>EmptyList\<close>; the \<open>&&\<close> of the first branch reads it only when
  \<open>k_ < k_\<close> of the replacer holds.
\<close>

type_synonym evict_state = "bool \<times> size_t \<times> size_t \<times> frame_id_t"

definition front :: "'a list \<Rightarrow> error + 'a" where
  "front xs = (case xs of [] \<Rightarrow> Inl EmptyList | x # _ \<Rightarrow> Inr x)"

definition Evict_step ::
  "size_t \<Rightarrow> size_t \<Rightarrow> frame_id_t \<times> LRUKNode \<Rightarrow> evict_state \<Rightarrow> error + evict_state" where
  "Evict_step K now it st =
     (case (it, st) of ((f, n), (found, diff, earliest_timestamp, frame_id)) \<Rightarrow>
        if is_evictable n then
          (if found then
             (if diff = 0 then
                (if node_k n < K then
                   (case front (history n) of
                      Inl e \<Rightarrow> Inl e
                    | Inr t \<Rightarrow>
                        if earliest_timestamp > t then Inr (found, 0, t, f) else Inr st)
                 else Inr st)
              else
                (if node_k n < K then
                   (case front (history n) of
                      Inl e \<Rightarrow> Inl e
                    | Inr t \<Rightarrow> Inr (found, 0, t, f))
                 else
                   (case front (history n) of
                      Inl e \<Rightarrow> Inl e
                    | Inr t \<Rightarrow>
                        let cur_diff = now - t
                        in if cur_diff > diff then Inr (found, cur_diff, t, f) else Inr st)))
           else
             (case front (history n) of
                Inl e \<Rightarrow> Inl e
              | Inr t \<Rightarrow> Inr (True, (if node_k n = K then now - t else diff), t, f)))
        else Inr st)"

fun Evict_loop ::
  "size_t \<Rightarrow> size_t \<Rightarrow> (frame_id_t \<times> LRUKNode) list \<Rightarrow> evict_state \<Rightarrow> error + evict_state" where
  "Evict_loop K now [] st = Inr st"
| "Evict_loop K now (it # rest) st =
     (case Evict_step K now it st of
        Inl e \<Rightarrow> Inl e
      | Inr st' \<Rightarrow> Evict_loop K now rest st')"

text \<open>
  \<open>Evict r frame_id\<close> takes the value that \<open>*frame_id\<close> has before the call and returns
  the \<open>bool\<close>, the value of \<open>*frame_id\<close> afterwards and the replacer.
\<close>

definition Evict :: "LRUKReplacer \<Rightarrow> frame_id_t \<Rightarrow> error + (bool \<times> frame_id_t \<times> LRUKReplacer)" where
  "Evict r frame_id =
     (if curr_size r = 0 then Inr (False, frame_id, r)
      else
        (case Evict_loop (replacer_k r) (current_timestamp r) (node_store r)
                (False, 0, 0, frame_id) of
           Inl e \<Rightarrow> Inl e
         | Inr (found, diff, earliest_timestamp, frame_id') \<Rightarrow>
             if found
             then Inr (True, frame_id',
                       r\<lparr>node_store := AList.delete frame_id' (node_store r),
                         curr_size := curr_size r - 1\<rparr>)
             else Inr (False, frame_id', r)))"

text \<open>
  The invariant of the replacer's state: one node per frame id; every node has a
  non-empty history, at most \<open>k_\<close> recorded accesses and only timestamps of the past;
  \<open>curr_size_\<close> counts the evictable nodes.
\<close>

definition node_inv :: "size_t \<Rightarrow> size_t \<Rightarrow> LRUKNode \<Rightarrow> bool" where
  "node_inv K now n \<longleftrightarrow>
     history n \<noteq> [] \<and> node_k n \<le> K \<and> list_all (\<lambda>t. t < now) (history n)"

definition replacer_inv :: "LRUKReplacer \<Rightarrow> bool" where
  "replacer_inv r \<longleftrightarrow>
     distinct (map fst (node_store r)) \<and>
     list_all (\<lambda>(f, n). node_inv (replacer_k r) (current_timestamp r) n) (node_store r) \<and>
     unat (curr_size r) = length (filter (\<lambda>(f, n). is_evictable n) (node_store r))"

text \<open>
  The order of the backward k-distance, in the words of the specification: \<open>a\<close> is at
  least as good a victim as \<open>b\<close>. A node with fewer than \<open>K\<close> accesses has distance
  infinity and beats every node with \<open>K\<close> accesses; two such nodes compare by the oldest
  timestamp, smaller first; two nodes with \<open>K\<close> accesses compare by
  \<open>current_timestamp - oldest timestamp\<close>, larger first.
\<close>

definition beats :: "size_t \<Rightarrow> size_t \<Rightarrow> LRUKNode \<Rightarrow> LRUKNode \<Rightarrow> bool" where
  "beats K now a b \<longleftrightarrow>
     (if node_k a < K then (node_k b < K \<longrightarrow> hd (history a) \<le> hd (history b))
      else \<not> node_k b < K \<and> now - hd (history b) \<le> now - hd (history a))"

section \<open>Pages and the disk\<close>

text \<open>
  A \<open>Page\<close> is the byte buffer \<open>data_\<close> with its metadata and its reader-writer latch
  (\<open>readers\<close> shared holders, \<open>writer\<close> for the exclusive holder). The class is declared in
  \<open>storage/page/page.h\<close>, which is not among the sources.
\<close>

record Page =
  page_data :: "8 word list"
  page_id :: page_id_t
  pin_count :: "32 word"
  is_dirty :: bool
  readers :: nat
  writer :: bool

text \<open>
  Modelled from the spec: \<open>Page::ResetMemory\<close> (\<open>page.h\<close> is missing). The specification
  only names the step "reset memory"; it zero-fills the page-sized buffer.
\<close>

definition ResetMemory :: "Page \<Rightarrow> Page" where
  "ResetMemory pg = pg\<lparr>page_data := replicate (length (page_data pg)) 0\<rparr>"

text \<open>
  Modelled from the spec: the initial \<open>Page\<close> of \<open>new Page[pool_size_]\<close> (\<open>page.h\<close> is
  missing): zeroed memory of the page size, no page, not pinned, clean, latch free.
\<close>

definition Page_new :: "nat \<Rightarrow> Page" where
  "Page_new page_size =
     \<lparr>page_data = replicate page_size 0, page_id = INVALID_PAGE_ID, pin_count = 0,
      is_dirty = False, readers = 0, writer = False\<rparr>"

text \<open>
  \<open>pages_[frame_id]\<close>: the index of a frame in the array, \<open>OutOfBounds\<close> where the C++
  reads outside \<open>pages_\<close>.
\<close>

definition frame_index :: "Page list \<Rightarrow> 32 word \<Rightarrow> error + nat" where
  "frame_index ps i =
     (if 0 \<le>s i \<and> nat (sint i) < length ps then Inr (nat (sint i)) else Inl OutOfBounds)"

section \<open>Buffer pool manager (\<open>buffer_pool_manager.cpp\<close>)\<close>

text \<open>
  \<open>page_table_\<close> is a \<open>std::unordered_map\<close>, an association list as for the replacer.
  \<open>disk\<close> is the content behind the disk scheduler: a request scheduled with
  \<open>is_write = true\<close> and awaited stores the buffer under the page id, a read request
  copies the stored page into the buffer. \<open>NewPage\<close>, \<open>FetchPage\<close>, \<open>FlushPage\<close> and
  \<open>DeletePage\<close> await the future right after \<open>Schedule\<close>, with the latch held: the request
  is complete before the next statement. \<open>FlushAllPages\<close> schedules all requests before it
  awaits the first; there the order of the worker and the caller is a parameter.
\<close>

record BufferPoolManager =
  pool_size :: size_t
  pages :: "Page list"
  page_table :: "(page_id_t \<times> frame_id_t) list"
  free_list :: "frame_id_t list"
  replacer :: LRUKReplacer
  next_page_id :: page_id_t
  disk :: "page_id_t \<Rightarrow> 8 word list"

definition BufferPoolManager_new ::
  "nat \<Rightarrow> size_t \<Rightarrow> size_t \<Rightarrow> (page_id_t \<Rightarrow> 8 word list) \<Rightarrow> BufferPoolManager" where
  "BufferPoolManager_new page_size n replacer_k' d =
     \<lparr>pool_size = n,
      pages = replicate (unat n) (Page_new page_size),
      page_table = [],
      free_list = map (\<lambda>i. word_of_nat i) [0 ..< unat n],
      replacer = LRUKReplacer_new n replacer_k',
      next_page_id = 0,
      disk = d\<rparr>"

definition AllocatePage :: "BufferPoolManager \<Rightarrow> page_id_t \<times> BufferPoolManager" where
  "AllocatePage s = (next_page_id s, s\<lparr>next_page_id := next_page_id s + 1\<rparr>)"

text \<open>
  The block that \<open>NewPage\<close> (lines 38 to 58) and \<open>FetchPage\<close> (lines 83 to 102) both
  contain, word for word: take a frame from the free list or from the replacer, return
  \<open>nullptr\<close> (\<open>None\<close>) when there is none, and write the frame's old page back when it is
  dirty.
\<close>

definition take_frame :: "BufferPoolManager \<Rightarrow> error + (frame_id_t \<times> BufferPoolManager)" where
  "take_frame s =
     (case free_list s of
        f # rest \<Rightarrow> Inr (f, s\<lparr>free_list := rest\<rparr>)
      | [] \<Rightarrow>
          if Size (replacer s) > 0 then
            (case Evict (replacer s) INVALID_FRAME_ID of
               Inl e \<Rightarrow> Inl e
             | Inr (found, f, r') \<Rightarrow>
                 (case frame_index (pages s) f of
                    Inl e \<Rightarrow> Inl e
                  | Inr i \<Rightarrow>
                      Inr (f, s\<lparr>replacer := r',
                                page_table := AList.delete (page_id (pages s ! i)) (page_table s)\<rparr>)))
          else Inr (INVALID_FRAME_ID, s))"

definition write_old_page :: "BufferPoolManager \<Rightarrow> frame_id_t \<Rightarrow> error + BufferPoolManager" where
  "write_old_page s f =
     (case frame_index (pages s) f of
        Inl e \<Rightarrow> Inl e
      | Inr i \<Rightarrow>
          let pg = pages s ! i in
          if page_id pg \<noteq> INVALID_PAGE_ID \<and> is_dirty pg
          then Inr (s\<lparr>disk := (disk s)(page_id pg := page_data pg),
                      pages := (pages s)[i := ResetMemory pg]\<rparr>)
          else Inr s)"

definition acquire_frame ::
  "BufferPoolManager \<Rightarrow> error + (frame_id_t option \<times> BufferPoolManager)" where
  "acquire_frame s =
     (case take_frame s of
        Inl e \<Rightarrow> Inl e
      | Inr (f, s1) \<Rightarrow>
          if f = INVALID_FRAME_ID then Inr (None, s1)
          else (case write_old_page s1 f of
                  Inl e \<Rightarrow> Inl e
                | Inr s2 \<Rightarrow> Inr (Some f, s2)))"

text \<open>
  The tail that both functions share as well: set the metadata of the frame, record the
  access and make the frame non-evictable.
\<close>

definition install_page ::
  "BufferPoolManager \<Rightarrow> page_id_t \<Rightarrow> frame_id_t \<Rightarrow> error + BufferPoolManager" where
  "install_page s p f =
     (case frame_index (pages s) f of
        Inl e \<Rightarrow> Inl e
      | Inr i \<Rightarrow>
          (case RecordAccess (replacer s) f of
             Inl e \<Rightarrow> Inl e
           | Inr r1 \<Rightarrow>
               (case SetEvictable r1 f False of
                  Inl e \<Rightarrow> Inl e
                | Inr r2 \<Rightarrow>
                    Inr (s\<lparr>page_table := AList.update p f (page_table s),
                           pages := (pages s)[i := (pages s ! i)\<lparr>pin_count := 1, is_dirty := False,
                                                                 page_id := p\<rparr>],
                           replacer := r2\<rparr>))))"

text \<open>
  \<open>NewPage\<close> returns the new page id (the out-parameter) with the frame of the returned
  \<open>Page *\<close>, or \<open>None\<close> for \<open>nullptr\<close>.
\<close>

definition NewPage ::
  "BufferPoolManager \<Rightarrow> error + ((page_id_t \<times> frame_id_t) option \<times> BufferPoolManager)" where
  "NewPage s =
     (case acquire_frame s of
        Inl e \<Rightarrow> Inl e
      | Inr (None, s1) \<Rightarrow> Inr (None, s1)
      | Inr (Some f, s1) \<Rightarrow>
          (case AllocatePage s1 of
             (p, s2) \<Rightarrow>
               (case install_page s2 p f of
                  Inl e \<Rightarrow> Inl e
                | Inr s3 \<Rightarrow> Inr (Some (p, f), s3))))"

text \<open>
  \<open>FetchPage\<close>: the frame of the returned \<open>Page *\<close>, or \<open>None\<close> for \<open>nullptr\<close>. The hit path
  (lines 76 to 81) calls the replacer and returns \<open>pages_ + frame_id\<close>; it contains no
  statement on \<open>pin_count_\<close>.
\<close>

definition FetchPage ::
  "BufferPoolManager \<Rightarrow> page_id_t \<Rightarrow> error + (frame_id_t option \<times> BufferPoolManager)" where
  "FetchPage s p =
     (case map_of (page_table s) p of
        Some f \<Rightarrow>
          (case RecordAccess (replacer s) f of
             Inl e \<Rightarrow> Inl e
           | Inr r1 \<Rightarrow>
               (case SetEvictable r1 f False of
                  Inl e \<Rightarrow> Inl e
                | Inr r2 \<Rightarrow> Inr (Some f, s\<lparr>replacer := r2\<rparr>)))
      | None \<Rightarrow>
          (case acquire_frame s of
             Inl e \<Rightarrow> Inl e
           | Inr (None, s1) \<Rightarrow> Inr (None, s1)
           | Inr (Some f, s1) \<Rightarrow>
               (case frame_index (pages s1) f of
                  Inl e \<Rightarrow> Inl e
                | Inr i \<Rightarrow>
                    (case install_page
                            (s1\<lparr>pages := (pages s1)[i := (pages s1 ! i)\<lparr>page_data := disk s1 p\<rparr>]\<rparr>)
                            p f of
                       Inl e \<Rightarrow> Inl e
                     | Inr s2 \<Rightarrow> Inr (Some f, s2)))))"

definition UnpinPage ::
  "BufferPoolManager \<Rightarrow> page_id_t \<Rightarrow> bool \<Rightarrow> error + (bool \<times> BufferPoolManager)" where
  "UnpinPage s p dirty =
     (case map_of (page_table s) p of
        None \<Rightarrow> Inr (False, s)
      | Some f \<Rightarrow>
          (case frame_index (pages s) f of
             Inl e \<Rightarrow> Inl e
           | Inr i \<Rightarrow>
               let pg = pages s ! i in
               if pin_count pg \<le>s 0 then Inr (False, s)
               else
                 let pg' = pg\<lparr>is_dirty := is_dirty pg \<or> dirty, pin_count := pin_count pg - 1\<rparr>;
                     s1 = s\<lparr>pages := (pages s)[i := pg']\<rparr>
                 in if pin_count pg' = 0
                    then (case SetEvictable (replacer s1) f True of
                            Inl e \<Rightarrow> Inl e
                          | Inr r' \<Rightarrow> Inr (True, s1\<lparr>replacer := r'\<rparr>))
                    else Inr (True, s1)))"

definition FlushPage ::
  "BufferPoolManager \<Rightarrow> page_id_t \<Rightarrow> error + (bool \<times> BufferPoolManager)" where
  "FlushPage s p =
     (case map_of (page_table s) p of
        None \<Rightarrow> Inr (False, s)
      | Some f \<Rightarrow>
          (case frame_index (pages s) f of
             Inl e \<Rightarrow> Inl e
           | Inr i \<Rightarrow>
               let pg = pages s ! i in
               Inr (True, s\<lparr>disk := (disk s)(p := page_data pg),
                            pages := (pages s)[i := (ResetMemory pg)\<lparr>is_dirty := False\<rparr>]\<rparr>)))"

text \<open>
  \<open>FlushAllPages\<close>. The first loop schedules a write request for every entry
  \<open>(page_id, frame_id)\<close> of the page table: the page id and the buffer
  \<open>pages_[frame_id].data_\<close>, here the index of the frame. The worker of the disk scheduler
  takes the requests in their order and writes what the buffer holds when it comes to
  the request (\<open>worker_writes\<close>); a request is done at the latest when its future is
  awaited. The second loop awaits the future of the entry and resets \<open>pages_[it->first]\<close>:
  the index is the key of the entry, the page id. \<open>queue\<close> holds the requests not yet
  written. \<open>ahead\<close> gives for every turn of the second loop the number of further
  requests that the worker has written before the reset, beyond the one awaited: every
  order in which the two threads can run is one value of \<open>ahead\<close>.
\<close>

fun FlushAllPages_schedule ::
  "(page_id_t \<times> frame_id_t) list \<Rightarrow> Page list \<Rightarrow> error + (page_id_t \<times> nat) list" where
  "FlushAllPages_schedule [] ps = Inr []"
| "FlushAllPages_schedule ((p, f) # rest) ps =
     (case frame_index ps f of
        Inl e \<Rightarrow> Inl e
      | Inr i \<Rightarrow>
          (case FlushAllPages_schedule rest ps of
             Inl e \<Rightarrow> Inl e
           | Inr queue \<Rightarrow> Inr ((p, i) # queue)))"

fun worker_writes :: "(page_id_t \<times> nat) list \<Rightarrow> BufferPoolManager \<Rightarrow> BufferPoolManager" where
  "worker_writes [] s = s"
| "worker_writes ((p, i) # queue) s =
     worker_writes queue (s\<lparr>disk := (disk s)(p := page_data (pages s ! i))\<rparr>)"

fun FlushAllPages_await ::
  "(page_id_t \<times> frame_id_t) list \<Rightarrow> (page_id_t \<times> nat) list \<Rightarrow> nat list \<Rightarrow>
     BufferPoolManager \<Rightarrow> error + BufferPoolManager" where
  "FlushAllPages_await [] queue ahead s = Inr s"
| "FlushAllPages_await ((p, f) # rest) queue ahead s =
     (let n = (if length rest < length queue then 1 else 0) +
              (case ahead of [] \<Rightarrow> 0 | a # _ \<Rightarrow> a);
          s1 = worker_writes (take n queue) s
      in case frame_index (pages s1) p of
           Inl e \<Rightarrow> Inl e
         | Inr i \<Rightarrow>
             FlushAllPages_await rest (drop n queue) (tl ahead)
               (s1\<lparr>pages := (pages s1)[i := (ResetMemory (pages s1 ! i))\<lparr>is_dirty := False\<rparr>]\<rparr>))"

definition FlushAllPages :: "nat list \<Rightarrow> BufferPoolManager \<Rightarrow> error + BufferPoolManager" where
  "FlushAllPages ahead s =
     (case FlushAllPages_schedule (page_table s) (pages s) of
        Inl e \<Rightarrow> Inl e
      | Inr queue \<Rightarrow> FlushAllPages_await (page_table s) queue ahead s)"

text \<open>\<open>DeletePage\<close>; \<open>DeallocatePage\<close> is a hook without effect.\<close>

definition DeletePage ::
  "BufferPoolManager \<Rightarrow> page_id_t \<Rightarrow> error + (bool \<times> BufferPoolManager)" where
  "DeletePage s p =
     (case map_of (page_table s) p of
        None \<Rightarrow> Inr (True, s)
      | Some f \<Rightarrow>
          (case frame_index (pages s) f of
             Inl e \<Rightarrow> Inl e
           | Inr i \<Rightarrow>
               let pg = pages s ! i in
               if 0 <s pin_count pg then Inr (False, s)
               else
                 let d = (if is_dirty pg then (disk s)(p := page_data pg) else disk s) in
                 (case Remove (replacer s) f of
                    Inl e \<Rightarrow> Inl e
                  | Inr r' \<Rightarrow>
                      Inr (True,
                           s\<lparr>disk := d,
                             page_table := AList.delete p (page_table s),
                             replacer := r',
                             pages := (pages s)[i := ResetMemory
                                         (pg\<lparr>is_dirty := False, pin_count := 0,
                                             page_id := INVALID_PAGE_ID\<rparr>)],
                             free_list := free_list s @ [f]\<rparr>))))"

section \<open>Page guards (\<open>page_guard.cpp\<close>)\<close>

text \<open>
  Modelled from the spec: \<open>Page::RLatch\<close> and \<open>Page::WLatch\<close> (\<open>page.h\<close> is missing): "any
  number of readers or one writer".
\<close>

definition RLatch :: "Page \<Rightarrow> error + Page" where
  "RLatch pg = (if writer pg then Inl Blocked else Inr (pg\<lparr>readers := readers pg + 1\<rparr>))"

definition WLatch :: "Page \<Rightarrow> error + Page" where
  "WLatch pg =
     (if writer pg \<or> readers pg > 0 then Inl Blocked else Inr (pg\<lparr>writer := True\<rparr>))"

text \<open>
  A guard holds \<open>bpm_\<close> (there is one pool: \<open>bpm\<close> says that the pointer is not null),
  \<open>page_\<close> (a \<open>Page *\<close> into \<open>pages_\<close>: the frame, \<open>None\<close> for \<open>nullptr\<close>) and \<open>is_dirty_\<close>
  (\<open>guard_dirty\<close>, the page has an \<open>is_dirty\<close> too).
\<close>

record BasicPageGuard =
  bpm :: bool
  page :: "frame_id_t option"
  guard_dirty :: bool

record ReadPageGuard =
  read_guard :: BasicPageGuard

record WritePageGuard =
  write_guard :: BasicPageGuard

definition Reset :: "BasicPageGuard \<Rightarrow> BasicPageGuard" where
  "Reset g = g\<lparr>bpm := False, page := None, guard_dirty := False\<rparr>"

text \<open>
  The move constructor: the new guard takes the three fields and \<open>that\<close> is reset. The
  result is the new guard and \<open>that\<close> afterwards.
\<close>

definition BasicPageGuard_move :: "BasicPageGuard \<Rightarrow> BasicPageGuard \<times> BasicPageGuard" where
  "BasicPageGuard_move that =
     (\<lparr>bpm = bpm that, page = page that, guard_dirty = guard_dirty that\<rparr>, Reset that)"

text \<open>
  \<open>Drop\<close>: \<open>page_->GetPageId()\<close> reads the frame; the result of \<open>UnpinPage\<close> is dropped.
  The destructor is \<open>Drop\<close>.
\<close>

definition Drop ::
  "BufferPoolManager \<Rightarrow> BasicPageGuard \<Rightarrow> error + (BufferPoolManager \<times> BasicPageGuard)" where
  "Drop s g =
     (case (bpm g, page g) of
        (True, Some f) \<Rightarrow>
          (case frame_index (pages s) f of
             Inl e \<Rightarrow> Inl e
           | Inr i \<Rightarrow>
               (case UnpinPage s (page_id (pages s ! i)) (guard_dirty g) of
                  Inl e \<Rightarrow> Inl e
                | Inr (b, s') \<Rightarrow> Inr (s', Reset g)))
      | _ \<Rightarrow> Inr (s, Reset g))"

definition BasicPageGuard_destroy ::
  "BufferPoolManager \<Rightarrow> BasicPageGuard \<Rightarrow> error + (BufferPoolManager \<times> BasicPageGuard)" where
  "BasicPageGuard_destroy s g = Drop s g"

text \<open>
  \<open>UpgradeRead\<close> and \<open>UpgradeWrite\<close>: \<open>new_page->RLatch()\<close> follows the pointer without a
  test. The result is the pool, this guard after \<open>Reset\<close> and the new guard, built by
  the constructor from \<open>new_bpm\<close> and \<open>new_page\<close>.
\<close>

definition UpgradeRead ::
  "BufferPoolManager \<Rightarrow> BasicPageGuard \<Rightarrow>
     error + (BufferPoolManager \<times> BasicPageGuard \<times> ReadPageGuard)" where
  "UpgradeRead s g =
     (let new_bpm = bpm g; new_page = page g; g' = Reset g in
      case new_page of
        None \<Rightarrow> Inl NullDereference
      | Some f \<Rightarrow>
          (case frame_index (pages s) f of
             Inl e \<Rightarrow> Inl e
           | Inr i \<Rightarrow>
               (case RLatch (pages s ! i) of
                  Inl e \<Rightarrow> Inl e
                | Inr pg \<Rightarrow>
                    Inr (s\<lparr>pages := (pages s)[i := pg]\<rparr>, g',
                         \<lparr>read_guard = \<lparr>bpm = new_bpm, page = new_page, guard_dirty = False\<rparr>\<rparr>))))"

definition UpgradeWrite ::
  "BufferPoolManager \<Rightarrow> BasicPageGuard \<Rightarrow>
     error + (BufferPoolManager \<times> BasicPageGuard \<times> WritePageGuard)" where
  "UpgradeWrite s g =
     (let new_bpm = bpm g; new_page = page g; g' = Reset g in
      case new_page of
        None \<Rightarrow> Inl NullDereference
      | Some f \<Rightarrow>
          (case frame_index (pages s) f of
             Inl e \<Rightarrow> Inl e
           | Inr i \<Rightarrow>
               (case WLatch (pages s ! i) of
                  Inl e \<Rightarrow> Inl e
                | Inr pg \<Rightarrow>
                    Inr (s\<lparr>pages := (pages s)[i := pg]\<rparr>, g',
                         \<lparr>write_guard = \<lparr>bpm = new_bpm, page = new_page, guard_dirty = False\<rparr>\<rparr>))))"

text \<open>\<open>FetchPageBasic\<close> wraps what \<open>FetchPage\<close> returns, a null pointer included.\<close>

definition FetchPageBasic ::
  "BufferPoolManager \<Rightarrow> page_id_t \<Rightarrow> error + (BasicPageGuard \<times> BufferPoolManager)" where
  "FetchPageBasic s p =
     (case FetchPage s p of
        Inl e \<Rightarrow> Inl e
      | Inr (pg, s') \<Rightarrow> Inr (\<lparr>bpm = True, page = pg, guard_dirty = False\<rparr>, s'))"

section \<open>Persistent trie (\<open>trie.cpp\<close>)\<close>

text \<open>
  Trie nodes are shared objects behind \<open>std::shared_ptr\<close>: the store is the list of all
  nodes ever made, the address of a node is its index, \<open>std::make_shared\<close> and \<open>Clone\<close>
  append a node. A node holds \<open>children_\<close> (a \<open>std::map\<close> from \<open>char\<close> to the address of
  the child, as an association list) and, when it is a \<open>TrieNodeWithValue<T>\<close>, the
  value with a tag for its type \<open>T\<close> (\<open>is_value_node_\<close> is \<open>node_value \<noteq> None\<close>;
  \<open>dynamic_cast\<close> compares the tag). A null \<open>shared_ptr\<close> is \<open>None\<close>.
\<close>

record ('t, 'v) TrieNode =
  children :: "(char \<times> nat) list"
  node_value :: "('t \<times> 'v) option"

type_synonym ('t, 'v) store = "('t, 'v) TrieNode list"

text \<open>\<open>Get\<close>: the \<open>for\<close> loop over the key, then the test of the node and the cast.\<close>

fun Get_walk :: "('t, 'v) store \<Rightarrow> nat \<Rightarrow> string \<Rightarrow> nat option" where
  "Get_walk h node [] = Some node"
| "Get_walk h node (c # key) =
     (case map_of (children (h ! node)) c of
        Some next \<Rightarrow> Get_walk h next key
      | None \<Rightarrow> None)"

definition Trie_Get :: "('t, 'v) store \<Rightarrow> nat option \<Rightarrow> 't \<Rightarrow> string \<Rightarrow> 'v option" where
  "Trie_Get h root ty key =
     (case root of
        None \<Rightarrow> None
      | Some node \<Rightarrow>
          (case Get_walk h node key of
             None \<Rightarrow> None
           | Some n \<Rightarrow>
               (case node_value (h ! n) of
                  None \<Rightarrow> None
                | Some (ty', v) \<Rightarrow> if ty' = ty then Some v else None)))"

text \<open>
  \<open>Put\<close>. \<open>Put_loop h cur_trie new_trie_next v key\<close> is the \<open>for\<close> loop from the current
  index on, \<open>key\<close> being the rest of the key: it makes \<open>child_trie\<close> and stores its address
  in the node \<open>new_trie_next\<close>.
\<close>

fun Put_loop ::
  "('t, 'v) store \<Rightarrow> nat option \<Rightarrow> nat \<Rightarrow> 't \<times> 'v \<Rightarrow> string \<Rightarrow> ('t, 'v) store" where
  "Put_loop h cur_trie new_trie_next v [] = h"
| "Put_loop h cur_trie new_trie_next v (c # rest) =
     (let cur_trie' = (case cur_trie of
                         Some a \<Rightarrow> map_of (children (h ! a)) c
                       | None \<Rightarrow> None);
          node = (if rest \<noteq> [] then
                    (case cur_trie' of
                       Some a \<Rightarrow> h ! a
                     | None \<Rightarrow> \<lparr>children = [], node_value = None\<rparr>)
                  else
                    (case cur_trie' of
                       Some a \<Rightarrow> \<lparr>children = children (h ! a), node_value = Some v\<rparr>
                     | None \<Rightarrow> \<lparr>children = [], node_value = Some v\<rparr>));
          child_trie = length h;
          h1 = h @ [node];
          h2 = h1[new_trie_next :=
                    (h1 ! new_trie_next)
                      \<lparr>children := AList.update c child_trie (children (h1 ! new_trie_next))\<rparr>]
      in Put_loop h2 cur_trie' child_trie v rest)"

definition Trie_Put ::
  "('t, 'v) store \<Rightarrow> nat option \<Rightarrow> string \<Rightarrow> 't \<Rightarrow> 'v \<Rightarrow> nat option \<times> ('t, 'v) store" where
  "Trie_Put h root key ty v =
     (if key = [] then
        (case root of
           Some a \<Rightarrow>
             (Some (length h), h @ [\<lparr>children = children (h ! a), node_value = Some (ty, v)\<rparr>])
         | None \<Rightarrow> (Some (length h), h @ [\<lparr>children = [], node_value = Some (ty, v)\<rparr>]))
      else
        let node = (case root of
                      Some a \<Rightarrow> h ! a
                    | None \<Rightarrow> \<lparr>children = [], node_value = None\<rparr>);
            new_trie = length h
        in (Some new_trie, Put_loop (h @ [node]) root new_trie (ty, v) key))"

text \<open>
  \<open>Remove\<close>. \<open>Remove_copy\<close> is the loop that copies the nodes on the path and pushes them
  on \<open>st\<close>; it stops at the \<open>break\<close>. \<open>Remove_prune h st key (Suc i)\<close> is the second loop
  at the index \<open>i\<close>, counting down. \<open>st[i]->children_[key[i]]\<close> on a missing entry would
  make a null pointer and follow it.
\<close>

fun Remove_copy ::
  "('t, 'v) store \<Rightarrow> nat \<Rightarrow> nat \<Rightarrow> nat list \<Rightarrow> string \<Rightarrow> ('t, 'v) store \<times> nat list" where
  "Remove_copy h cur_trie child_trie st [] = (h, st)"
| "Remove_copy h cur_trie child_trie st (c # rest) =
     (case map_of (children (h ! cur_trie)) c of
        Some cur_trie' \<Rightarrow>
          (let node = (if rest \<noteq> [] then h ! cur_trie'
                       else \<lparr>children = children (h ! cur_trie'), node_value = None\<rparr>);
               next = length h;
               h1 = h @ [node];
               h2 = h1[child_trie :=
                         (h1 ! child_trie)
                           \<lparr>children := AList.update c next (children (h1 ! child_trie))\<rparr>]
           in Remove_copy h2 cur_trie' next (st @ [next]) rest)
      | None \<Rightarrow> (h, st))"

fun Remove_prune ::
  "('t, 'v) store \<Rightarrow> nat list \<Rightarrow> string \<Rightarrow> nat \<Rightarrow> error + ('t, 'v) store" where
  "Remove_prune h st key 0 = Inr h"
| "Remove_prune h st key (Suc i) =
     (case map_of (children (h ! (st ! i))) (key ! i) of
        None \<Rightarrow> Inl NullDereference
      | Some ch \<Rightarrow>
          if children (h ! ch) = [] then
            (if node_value (h ! ch) \<noteq> None then Inr h
             else Remove_prune
                    (h[st ! i := (h ! (st ! i))
                         \<lparr>children := AList.delete (key ! i) (children (h ! (st ! i)))\<rparr>])
                    st key i)
          else Inr h)"

definition Trie_Remove ::
  "('t, 'v) store \<Rightarrow> nat option \<Rightarrow> string \<Rightarrow> error + (nat option \<times> ('t, 'v) store)" where
  "Trie_Remove h root key =
     (if key = [] then
        (case root of
           Some a \<Rightarrow>
             Inr (Some (length h), h @ [\<lparr>children = children (h ! a), node_value = None\<rparr>])
         | None \<Rightarrow> Inr (None, h))
      else
        (case root of
           None \<Rightarrow> Inr (None, h)
         | Some a \<Rightarrow>
             (let new_trie = length h in
              case Remove_copy (h @ [h ! a]) a new_trie [new_trie] key of
                (h2, st) \<Rightarrow>
                  if length st - 1 \<noteq> length key then Inr (root, h2)
                  else
                    (case Remove_prune h2 st key (length key) of
                       Inl e \<Rightarrow> Inl e
                     | Inr h3 \<Rightarrow>
                         if children (h3 ! new_trie) = [] \<and> node_value (h3 ! new_trie) = None
                         then Inr (None, h3)
                         else Inr (Some new_trie, h3)))))"

text \<open>
  What a key maps to below a node and in a trie: the value with its type tag. \<open>Get\<close>
  returns the value when the tag is the type asked for.
\<close>

definition val :: "('t, 'v) store \<Rightarrow> nat \<Rightarrow> string \<Rightarrow> ('t \<times> 'v) option" where
  "val h a key = (case Get_walk h a key of None \<Rightarrow> None | Some n \<Rightarrow> node_value (h ! n))"

definition lookup :: "('t, 'v) store \<Rightarrow> nat option \<Rightarrow> string \<Rightarrow> ('t \<times> 'v) option" where
  "lookup h root key = (case root of None \<Rightarrow> None | Some a \<Rightarrow> val h a key)"

text \<open>
  A store is closed when every child pointer is the address of a node, and a trie is
  in the store when its root is null or the address of a node: shared pointers do not
  dangle.
\<close>

definition closed :: "('t, 'v) store \<Rightarrow> bool" where
  "closed h \<longleftrightarrow> list_all (\<lambda>n. list_all (\<lambda>(c, b). b < length h) (children n)) h"

definition in_store :: "('t, 'v) store \<Rightarrow> nat option \<Rightarrow> bool" where
  "in_store h root \<longleftrightarrow> (case root of None \<Rightarrow> True | Some a \<Rightarrow> a < length h)"

text \<open>The nodes of \<open>h\<close> are still there, as they were, in \<open>g\<close>.\<close>

definition agree :: "('t, 'v) store \<Rightarrow> ('t, 'v) store \<Rightarrow> bool" where
  "agree h g \<longleftrightarrow> length h \<le> length g \<and> take (length h) g = h"

section \<open>The loop invariants of \<open>Remove\<close>\<close>

text \<open>
  \<open>h0\<close> is the store before the call and \<open>os\<close> the nodes of the old trie along the key.
  \<open>path_ok\<close>: \<open>os\<close> follows the key from the root for \<open>i\<close> steps. \<open>copy_of\<close>: the node
  \<open>length h0 + j\<close> of \<open>g\<close> is the copy of \<open>os ! j\<close> whose entry for \<open>key ! j\<close> is the next copy.
  \<open>copied\<close>: the state of the copying loop at index \<open>i\<close>. \<open>pruned\<close>: the state of the
  pruning loop when the entries above \<open>i\<close> are done: below the node \<open>length h0 + i\<close> every key
  maps to what it mapped to below \<open>os ! i\<close>, the rest of the removed key to nothing.
\<close>

definition path_ok :: "('t, 'v) store \<Rightarrow> string \<Rightarrow> nat list \<Rightarrow> nat \<Rightarrow> bool" where
  "path_ok h0 key os i \<longleftrightarrow>
     length os = i + 1 \<and> i \<le> length key \<and>
     (\<forall>j \<le> i. os ! j < length h0) \<and>
     (\<forall>j < i. map_of (children (h0 ! (os ! j))) (key ! j) = Some (os ! (j + 1)))"

definition copy_of :: "('t, 'v) store \<Rightarrow> string \<Rightarrow> nat list \<Rightarrow> ('t, 'v) store \<Rightarrow> nat \<Rightarrow> bool" where
  "copy_of h0 key os g j \<longleftrightarrow>
     children (g ! (length h0 + j)) =
       AList.update (key ! j) (length h0 + j + 1) (children (h0 ! (os ! j))) \<and>
     node_value (g ! (length h0 + j)) = node_value (h0 ! (os ! j))"

definition copied :: "('t, 'v) store \<Rightarrow> string \<Rightarrow> nat list \<Rightarrow> ('t, 'v) store \<Rightarrow> nat \<Rightarrow> bool" where
  "copied h0 key os g i \<longleftrightarrow>
     agree h0 g \<and> closed g \<and> length g = length h0 + i + 1 \<and> path_ok h0 key os i \<and>
     (\<forall>j < i. copy_of h0 key os g j) \<and>
     children (g ! (length h0 + i)) = children (h0 ! (os ! i)) \<and>
     node_value (g ! (length h0 + i)) =
       (if i = length key then None else node_value (h0 ! (os ! i)))"

definition pruned :: "('t, 'v) store \<Rightarrow> string \<Rightarrow> nat list \<Rightarrow> ('t, 'v) store \<Rightarrow> nat \<Rightarrow> bool" where
  "pruned h0 key os g i \<longleftrightarrow>
     agree h0 g \<and> closed g \<and> length g = length h0 + length key + 1 \<and>
     path_ok h0 key os (length key) \<and>
     i \<le> length key \<and>
     (\<forall>j < i. copy_of h0 key os g j) \<and>
     (\<forall>ks. val g (length h0 + i) ks = (if ks = drop i key then None else val h0 (os ! i) ks))"

section \<open>Concrete tries\<close>

text \<open>
  The type tags of the explicit instantiations at the end of \<open>trie.cpp\<close>. \<open>store_ab\<close> is
  the store after \<open>Put("ab", 1)\<close> on the empty trie, \<open>store_root_value\<close> after \<open>Put("", 5)\<close>;
  the root is the node 0 in both. \<open>store_ab_ac\<close> is the store after \<open>Put("ac", 2)\<close> on the
  trie of \<open>store_ab\<close>, with the new root 3 beside the old root 0, and
  \<open>store_ab_ac_removed\<close> the store after \<open>Remove("ac")\<close> on that trie, with the root 6.
\<close>

datatype value_type = T_uint32 | T_uint64 | T_string | T_Integer | T_MoveBlocked

definition store_ab :: "(value_type, nat) store" where
  "store_ab =
     [\<lparr>children = [(CHR ''a'', 1)], node_value = None\<rparr>,
      \<lparr>children = [(CHR ''b'', 2)], node_value = None\<rparr>,
      \<lparr>children = [], node_value = Some (T_uint32, 1)\<rparr>]"

definition store_ab_ac :: "(value_type, nat) store" where
  "store_ab_ac =
     store_ab @
     [\<lparr>children = [(CHR ''a'', 4)], node_value = None\<rparr>,
      \<lparr>children = [(CHR ''b'', 2), (CHR ''c'', 5)], node_value = None\<rparr>,
      \<lparr>children = [], node_value = Some (T_uint32, 2)\<rparr>]"

definition store_ab_ac_removed :: "(value_type, nat) store" where
  "store_ab_ac_removed =
     store_ab_ac @
     [\<lparr>children = [(CHR ''a'', 7)], node_value = None\<rparr>,
      \<lparr>children = [(CHR ''b'', 2)], node_value = None\<rparr>,
      \<lparr>children = [], node_value = None\<rparr>]"

definition store_root_value :: "(value_type, nat) store" where
  "store_root_value = [\<lparr>children = [], node_value = Some (T_uint32, 5)\<rparr>]"

section \<open>The loop invariant of \<open>Evict\<close>\<close>

text \<open>
  After the entries \<open>ys\<close> of the node store the loop state is \<open>good\<close>: either nothing
  evictable has been seen, or \<open>*frame_id\<close> names an evictable node of \<open>ys\<close> that beats
  every evictable node of \<open>ys\<close>, \<open>earliest_timestamp\<close> is its oldest timestamp, and
  \<open>diff\<close> is \<open>0\<close> exactly when that node has fewer than \<open>K\<close> accesses.
\<close>

definition good :: "size_t \<Rightarrow> size_t \<Rightarrow> frame_id_t \<Rightarrow> (frame_id_t \<times> LRUKNode) list \<Rightarrow> evict_state \<Rightarrow> bool" where
  "good K now fid0 ys st \<longleftrightarrow>
     (case st of (found, diff, earliest, frame_id) \<Rightarrow>
        if found
        then (\<exists>nv. (frame_id, nv) \<in> set ys \<and> is_evictable nv \<and> earliest = hd (history nv) \<and>
                (diff = 0 \<longleftrightarrow> node_k nv < K) \<and> (diff \<noteq> 0 \<longrightarrow> diff = now - earliest) \<and>
                (\<forall>(f, n) \<in> set ys. is_evictable n \<longrightarrow> beats K now nv n))
        else (\<forall>(f, n) \<in> set ys. \<not> is_evictable n) \<and> diff = 0 \<and> frame_id = fid0)"

section \<open>Concrete states\<close>

text \<open>
  A replacer with \<open>k = 2\<close>: frame 0 has two recorded accesses, frame 1 has one; both
  are evictable.
\<close>

definition r0 :: LRUKReplacer where
  "r0 = \<lparr>node_store =
           [(0, \<lparr>history = [0, 2], node_k = 2, fid = 0, is_evictable = True\<rparr>),
            (1, \<lparr>history = [1], node_k = 1, fid = 1, is_evictable = True\<rparr>)],
         current_timestamp = 3, curr_size = 2, replacer_size = 2, replacer_k = 2\<rparr>"

text \<open>
  A pool of two frames with pages of two bytes over a disk that holds \<open>[7, 7]\<close> for
  every page, and the states that calls of the public interface reach from it.
  \<open>a1\<close>, \<open>a2\<close>, \<open>a3\<close>: after \<open>NewPage\<close>, then \<open>UnpinPage(0, false)\<close>, then \<open>FetchPage(0)\<close>.
  \<open>b1\<close>, \<open>b2\<close>: after \<open>FetchPage(1)\<close> on the new pool, then \<open>UnpinPage(1, true)\<close>.
\<close>

definition disk0 :: "page_id_t \<Rightarrow> 8 word list" where
  "disk0 = (\<lambda>p. [7, 7])"

definition bpm0 :: BufferPoolManager where
  "bpm0 = BufferPoolManager_new 2 2 2 disk0"

definition free_page :: Page where
  "free_page = \<lparr>page_data = [0, 0], page_id = INVALID_PAGE_ID, pin_count = 0, is_dirty = False,
                 readers = 0, writer = False\<rparr>"

definition bpm_state ::
  "Page \<Rightarrow> page_id_t \<Rightarrow> LRUKNode \<Rightarrow> size_t \<Rightarrow> size_t \<Rightarrow> page_id_t \<Rightarrow> BufferPoolManager" where
  "bpm_state pg p n now sz next =
     \<lparr>pool_size = 2, pages = [pg, free_page], page_table = [(p, 0)], free_list = [1],
      replacer = \<lparr>node_store = [(0, n)], current_timestamp = now, curr_size = sz,
                  replacer_size = 2, replacer_k = 2\<rparr>,
      next_page_id = next, disk = disk0\<rparr>"

definition a1 :: BufferPoolManager where
  "a1 = bpm_state \<lparr>page_data = [0, 0], page_id = 0, pin_count = 1, is_dirty = False,
                    readers = 0, writer = False\<rparr> 0
          \<lparr>history = [0], node_k = 1, fid = 0, is_evictable = False\<rparr> 1 0 1"

definition a2 :: BufferPoolManager where
  "a2 = bpm_state \<lparr>page_data = [0, 0], page_id = 0, pin_count = 0, is_dirty = False,
                    readers = 0, writer = False\<rparr> 0
          \<lparr>history = [0], node_k = 1, fid = 0, is_evictable = True\<rparr> 1 1 1"

definition a3 :: BufferPoolManager where
  "a3 = bpm_state \<lparr>page_data = [0, 0], page_id = 0, pin_count = 0, is_dirty = False,
                    readers = 0, writer = False\<rparr> 0
          \<lparr>history = [0, 1], node_k = 2, fid = 0, is_evictable = False\<rparr> 2 0 1"

definition b1 :: BufferPoolManager where
  "b1 = bpm_state \<lparr>page_data = [7, 7], page_id = 1, pin_count = 1, is_dirty = False,
                    readers = 0, writer = False\<rparr> 1
          \<lparr>history = [0], node_k = 1, fid = 0, is_evictable = False\<rparr> 1 0 0"

definition b2 :: BufferPoolManager where
  "b2 = bpm_state \<lparr>page_data = [7, 7], page_id = 1, pin_count = 0, is_dirty = True,
                    readers = 0, writer = False\<rparr> 1
          \<lparr>history = [0], node_k = 1, fid = 0, is_evictable = True\<rparr> 1 1 0"

definition b1_flushed :: BufferPoolManager where
  "b1_flushed =
     b1\<lparr>disk := disk0(1 := [7, 7]),
        pages := [\<lparr>page_data = [0, 0], page_id = 1, pin_count = 1, is_dirty = False,
                   readers = 0, writer = False\<rparr>, free_page]\<rparr>"

text \<open>
  \<open>two_pages\<close>: the new pool after \<open>FetchPage(1)\<close> and \<open>FetchPage(0)\<close>; the page 1 is in
  frame 0 and the page 0 in frame 1.
\<close>

definition two_pages :: BufferPoolManager where
  "two_pages =
     \<lparr>pool_size = 2,
      pages = [\<lparr>page_data = [7, 7], page_id = 1, pin_count = 1, is_dirty = False,
                readers = 0, writer = False\<rparr>,
               \<lparr>page_data = [7, 7], page_id = 0, pin_count = 1, is_dirty = False,
                readers = 0, writer = False\<rparr>],
      page_table = [(1, 0), (0, 1)], free_list = [],
      replacer = \<lparr>node_store =
                    [(0, \<lparr>history = [0], node_k = 1, fid = 0, is_evictable = False\<rparr>),
                     (1, \<lparr>history = [1], node_k = 1, fid = 1, is_evictable = False\<rparr>)],
                  current_timestamp = 2, curr_size = 0, replacer_size = 2, replacer_k = 2\<rparr>,
      next_page_id = 0, disk = disk0\<rparr>"

definition no_frames :: BufferPoolManager where
  "no_frames = BufferPoolManager_new 2 0 2 disk0"

definition empty_guard :: BasicPageGuard where
  "empty_guard = \<lparr>bpm = True, page = None, guard_dirty = False\<rparr>"

section \<open>Theorems\<close>

subsection \<open>The replacer\<close>

lemma beats_refl: "beats K now a a"
  by (simp add: beats_def)

lemma beats_trans: "beats K now a b \<Longrightarrow> beats K now b c \<Longrightarrow> beats K now a c"
  by (auto simp: beats_def split: if_splits)

lemma good_foundI:
  assumes "(frame_id, nv) \<in> set ys" "is_evictable nv" "earliest = hd (history nv)"
    "diff = 0 \<longleftrightarrow> node_k nv < K" "diff \<noteq> 0 \<Longrightarrow> diff = now - earliest"
    "\<And>f n. (f, n) \<in> set ys \<Longrightarrow> is_evictable n \<Longrightarrow> beats K now nv n"
  shows "good K now fid0 ys (True, diff, earliest, frame_id)"
  unfolding good_def using assms by (simp only: prod.case if_True) blast

lemma good_foundD:
  assumes "good K now fid0 ys (True, diff, earliest, frame_id)"
  shows "\<exists>nv. (frame_id, nv) \<in> set ys \<and> is_evictable nv \<and> earliest = hd (history nv) \<and>
    (diff = 0 \<longleftrightarrow> node_k nv < K) \<and> (diff \<noteq> 0 \<longrightarrow> diff = now - earliest) \<and>
    (\<forall>f n. (f, n) \<in> set ys \<longrightarrow> is_evictable n \<longrightarrow> beats K now nv n)"
  using assms unfolding good_def by (simp only: prod.case if_True) blast

lemma good_extend_keep:
  assumes g: "good K now fid0 ys (True, diff, earliest, frame_id)"
    and b: "\<And>nv. (frame_id, nv) \<in> set ys \<Longrightarrow> earliest = hd (history nv) \<Longrightarrow>
               (diff = 0 \<longleftrightarrow> node_k nv < K) \<Longrightarrow> (diff \<noteq> 0 \<Longrightarrow> diff = now - earliest) \<Longrightarrow>
               is_evictable n \<Longrightarrow> beats K now nv n"
  shows "good K now fid0 (ys @ [(f, n)]) (True, diff, earliest, frame_id)"
proof -
  from good_foundD [OF g] obtain nv where nv: "(frame_id, nv) \<in> set ys" "is_evictable nv"
    "earliest = hd (history nv)" "diff = 0 \<longleftrightarrow> node_k nv < K"
    "diff \<noteq> 0 \<Longrightarrow> diff = now - earliest"
    "\<And>f n. (f, n) \<in> set ys \<Longrightarrow> is_evictable n \<Longrightarrow> beats K now nv n"
    by blast
  show ?thesis
  proof (rule good_foundI [where nv = nv])
    show "(frame_id, nv) \<in> set (ys @ [(f, n)])" using nv(1) by simp
    show "is_evictable nv" by (rule nv(2))
    show "earliest = hd (history nv)" by (rule nv(3))
    show "diff = 0 \<longleftrightarrow> node_k nv < K" by (rule nv(4))
    show "diff \<noteq> 0 \<Longrightarrow> diff = now - earliest" by (rule nv(5))
    fix f' n' assume "(f', n') \<in> set (ys @ [(f, n)])" "is_evictable n'"
    then show "beats K now nv n'"
      using nv(6) b [OF nv(1) nv(3) nv(4) nv(5)] by auto
  qed
qed

lemma good_extend_replace:
  assumes g: "good K now fid0 ys (True, diff, earliest, frame_id)"
    and ev: "is_evictable n"
    and d: "diff' = 0 \<longleftrightarrow> node_k n < K" "diff' \<noteq> 0 \<Longrightarrow> diff' = now - hd (history n)"
    and b: "\<And>nv. earliest = hd (history nv) \<Longrightarrow>
               (diff = 0 \<longleftrightarrow> node_k nv < K) \<Longrightarrow> (diff \<noteq> 0 \<Longrightarrow> diff = now - earliest) \<Longrightarrow>
               beats K now n nv"
  shows "good K now fid0 (ys @ [(f, n)]) (True, diff', hd (history n), f)"
proof -
  from good_foundD [OF g] obtain nv where nv: "(frame_id, nv) \<in> set ys" "is_evictable nv"
    "earliest = hd (history nv)" "diff = 0 \<longleftrightarrow> node_k nv < K"
    "diff \<noteq> 0 \<Longrightarrow> diff = now - earliest"
    "\<And>f n. (f, n) \<in> set ys \<Longrightarrow> is_evictable n \<Longrightarrow> beats K now nv n"
    by blast
  have bn: "beats K now n nv" by (rule b [OF nv(3) nv(4) nv(5)])
  show ?thesis
  proof (rule good_foundI [where nv = n])
    show "(f, n) \<in> set (ys @ [(f, n)])" by simp
    show "is_evictable n" by (rule ev)
    show "hd (history n) = hd (history n)" by simp
    show "diff' = 0 \<longleftrightarrow> node_k n < K" by (rule d(1))
    show "diff' \<noteq> 0 \<Longrightarrow> diff' = now - hd (history n)" by (rule d(2))
    fix f' n' assume "(f', n') \<in> set (ys @ [(f, n)])" "is_evictable n'"
    then show "beats K now n n'"
      using nv(6) bn beats_trans beats_refl by auto
  qed
qed

lemma Evict_step_good:
  assumes g: "good K now fid0 ys st" and ni: "node_inv K now n"
  shows "\<exists>st'. Evict_step K now (f, n) st = Inr st' \<and> good K now fid0 (ys @ [(f, n)]) st'"
proof -
  obtain found diff earliest frame_id where st: "st = (found, diff, earliest, frame_id)"
    by (cases st) auto
  obtain t ts where h: "history n = t # ts"
    using ni by (cases "history n") (auto simp: node_inv_def)
  have tn: "t < now" and kn: "node_k n \<le> K" and hd: "hd (history n) = t"
    using ni h by (auto simp: node_inv_def)
  have nz: "now - t \<noteq> 0" using tn by auto
  show ?thesis
  proof (cases "is_evictable n")
    case False
    have "Evict_step K now (f, n) st = Inr st"
      using False by (simp add: Evict_step_def st)
    moreover have "good K now fid0 (ys @ [(f, n)]) st"
    proof (cases found)
      case True
      then have g': "good K now fid0 ys (True, diff, earliest, frame_id)" using g st by simp
      have "good K now fid0 (ys @ [(f, n)]) (True, diff, earliest, frame_id)"
        using g' by (rule good_extend_keep) (simp add: False)
      then show ?thesis using True st by simp
    next
      case nf: False
      show ?thesis using g False nf unfolding st good_def by auto
    qed
    ultimately show ?thesis by blast
  next
    case ev: True
    show ?thesis
    proof (cases found)
      case nf: False
      have prev: "\<forall>(f, n) \<in> set ys. \<not> is_evictable n" "diff = 0"
        using g nf unfolding st good_def by auto
      let ?d = "if node_k n = K then now - t else 0"
      have step: "Evict_step K now (f, n) st = Inr (True, ?d, hd (history n), f)"
        using ev prev(2) by (simp add: Evict_step_def st nf front_def h)
      have "good K now fid0 (ys @ [(f, n)]) (True, ?d, hd (history n), f)"
      proof (rule good_foundI [where nv = n])
        show "(f, n) \<in> set (ys @ [(f, n)])" by simp
        show "is_evictable n" by (rule ev)
        show "hd (history n) = hd (history n)" by simp
        show "?d = 0 \<longleftrightarrow> node_k n < K" using nz kn by auto
        show "?d \<noteq> 0 \<Longrightarrow> ?d = now - hd (history n)" by (simp add: hd split: if_splits)
        fix f' n' assume "(f', n') \<in> set (ys @ [(f, n)])" "is_evictable n'"
        then show "beats K now n n'" using prev(1) beats_refl by auto
      qed
      with step show ?thesis by blast
    next
      case fnd: True
      have g': "good K now fid0 ys (True, diff, earliest, frame_id)" using g st fnd by simp
      show ?thesis
      proof (cases "diff = 0")
        case d0: True
        show ?thesis
        proof (cases "node_k n < K \<and> t < earliest")
          case True
          have step: "Evict_step K now (f, n) st = Inr (True, 0, hd (history n), f)"
            using ev True d0 by (simp add: Evict_step_def st fnd front_def h)
          have "good K now fid0 (ys @ [(f, n)]) (True, 0, hd (history n), f)"
            using g' ev
          proof (rule good_extend_replace)
            show "(0::size_t) = 0 \<longleftrightarrow> node_k n < K" using True by simp
            show "(0::size_t) \<noteq> 0 \<Longrightarrow> 0 = now - hd (history n)" by simp
            fix nv :: LRUKNode assume "earliest = hd (history nv)" "diff = 0 \<longleftrightarrow> node_k nv < K"
            then show "beats K now n nv" using True d0 hd by (auto simp: beats_def)
          qed
          with step show ?thesis by blast
        next
          case False
          have step: "Evict_step K now (f, n) st = Inr st"
            using ev False d0 by (auto simp: Evict_step_def st fnd front_def h)
          have "good K now fid0 (ys @ [(f, n)]) (True, diff, earliest, frame_id)"
            using g'
          proof (rule good_extend_keep)
            fix nv :: LRUKNode assume "earliest = hd (history nv)" "diff = 0 \<longleftrightarrow> node_k nv < K"
            then show "beats K now nv n" using False d0 hd by (auto simp: beats_def)
          qed
          with step show ?thesis using st fnd by simp
        qed
      next
        case dn: False
        show ?thesis
        proof (cases "node_k n < K")
          case True
          have step: "Evict_step K now (f, n) st = Inr (True, 0, hd (history n), f)"
            using ev True dn by (simp add: Evict_step_def st fnd front_def h)
          have "good K now fid0 (ys @ [(f, n)]) (True, 0, hd (history n), f)"
            using g' ev
          proof (rule good_extend_replace)
            show "(0::size_t) = 0 \<longleftrightarrow> node_k n < K" using True by simp
            show "(0::size_t) \<noteq> 0 \<Longrightarrow> 0 = now - hd (history n)" by simp
            fix nv :: LRUKNode assume "earliest = hd (history nv)" "diff = 0 \<longleftrightarrow> node_k nv < K"
            then show "beats K now n nv" using True dn hd by (auto simp: beats_def)
          qed
          with step show ?thesis by blast
        next
          case fin: False
          show ?thesis
          proof (cases "diff < now - t")
            case True
            have step: "Evict_step K now (f, n) st = Inr (True, now - t, hd (history n), f)"
              using ev True dn fin by (simp add: Evict_step_def st fnd front_def h Let_def)
            have "good K now fid0 (ys @ [(f, n)]) (True, now - t, hd (history n), f)"
              using g' ev
            proof (rule good_extend_replace)
              show "now - t = 0 \<longleftrightarrow> node_k n < K" using nz fin by simp
              show "now - t \<noteq> 0 \<Longrightarrow> now - t = now - hd (history n)" by (simp add: hd)
              fix nv :: LRUKNode assume "earliest = hd (history nv)" "diff = 0 \<longleftrightarrow> node_k nv < K"
                "diff \<noteq> 0 \<Longrightarrow> diff = now - earliest"
              then show "beats K now n nv" using True dn hd fin by (auto simp: beats_def)
            qed
            with step show ?thesis by blast
          next
            case False
            have step: "Evict_step K now (f, n) st = Inr st"
              using ev False dn fin by (simp add: Evict_step_def st fnd front_def h Let_def)
            have "good K now fid0 (ys @ [(f, n)]) (True, diff, earliest, frame_id)"
              using g'
            proof (rule good_extend_keep)
              fix nv :: LRUKNode assume "earliest = hd (history nv)" "diff = 0 \<longleftrightarrow> node_k nv < K"
                "diff \<noteq> 0 \<Longrightarrow> diff = now - earliest"
              then show "beats K now nv n" using False dn hd fin by (auto simp: beats_def)
            qed
            with step show ?thesis using st fnd by simp
          qed
        qed
      qed
    qed
  qed
qed


lemma Evict_loop_good:
  assumes "good K now fid0 ys st" and "list_all (\<lambda>(f, n). node_inv K now n) xs"
  shows "\<exists>st'. Evict_loop K now xs st = Inr st' \<and> good K now fid0 (ys @ xs) st'"
  using assms
proof (induction xs arbitrary: ys st)
  case Nil
  then show ?case by simp
next
  case (Cons x xs)
  obtain f n where x: "x = (f, n)" by (cases x)
  from Cons.prems(2) have ni: "node_inv K now n"
    and rest: "list_all (\<lambda>(f, n). node_inv K now n) xs"
    by (simp_all add: x)
  from Evict_step_good [OF Cons.prems(1) ni, of f] obtain st1
    where s1: "Evict_step K now (f, n) st = Inr st1" "good K now fid0 (ys @ [(f, n)]) st1"
    by blast
  from Cons.IH [OF s1(2) rest] obtain st'
    where "Evict_loop K now xs st1 = Inr st'" "good K now fid0 ((ys @ [(f, n)]) @ xs) st'"
    by blast
  then show ?case using s1(1) x by simp
qed

lemma good_init: "good K now fid0 [] (False, 0, 0, fid0)"
  by (simp add: good_def)

lemma curr_size_nonzero:
  assumes "replacer_inv r" and "(f, n) \<in> set (node_store r)" and "is_evictable n"
  shows "curr_size r \<noteq> 0"
proof -
  have "(f, n) \<in> set (filter (\<lambda>(f, n). is_evictable n) (node_store r))"
    using assms(2,3) by simp
  then have "filter (\<lambda>(f, n). is_evictable n) (node_store r) \<noteq> []"
    by (metis empty_iff empty_set)
  then have "unat (curr_size r) \<noteq> 0" using assms(1) by (simp add: replacer_inv_def)
  then show ?thesis by auto
qed

text \<open>
  The invariant holds for the new replacer and every operation keeps it, as long as
  \<open>k_\<close> is not \<open>0\<close> and the timestamp does not wrap around.
\<close>

lemma filter_update_absent:
  "map_of al k = None \<Longrightarrow>
   length (filter P (AList.update k v al)) = length (filter P al) + (if P (k, v) then 1 else 0)"
  by (induction al) (auto split: if_splits)

lemma filter_update_present:
  "distinct (map fst al) \<Longrightarrow> map_of al k = Some v \<Longrightarrow>
   length (filter P (AList.update k v' al)) + (if P (k, v) then 1 else 0) =
   length (filter P al) + (if P (k, v') then 1 else 0)"
proof (induction al)
  case Nil
  then show ?case by simp
next
  case (Cons x al)
  obtain k' w where x: "x = (k', w)" by (cases x)
  show ?case
  proof (cases "k' = k")
    case True
    then show ?thesis using Cons.prems x by auto
  next
    case False
    then show ?thesis using Cons x by auto
  qed
qed

lemma filter_delete_present:
  "distinct (map fst al) \<Longrightarrow> map_of al k = Some v \<Longrightarrow>
   length (filter P (AList.delete k al)) + (if P (k, v) then 1 else 0) = length (filter P al)"
proof (induction al)
  case Nil
  then show ?case by simp
next
  case (Cons x al)
  obtain k' w where x: "x = (k', w)" by (cases x)
  show ?case
  proof (cases "k' = k")
    case True
    then have "k \<notin> fst ` set al" using Cons.prems x by auto
    then show ?thesis using True Cons.prems x by (auto simp: AList.delete_id)
  next
    case False
    then show ?thesis using Cons x by auto
  qed
qed

lemma list_all_update:
  "list_all Q al \<Longrightarrow> Q (k, v) \<Longrightarrow> list_all Q (AList.update k v al)"
  by (induction al) auto

lemma list_all_delete: "list_all Q al \<Longrightarrow> list_all Q (AList.delete k al)"
  by (simp add: AList.delete_eq list_all_iff)

lemma distinct_keys_length:
  fixes al :: "(frame_id_t \<times> 'a) list"
  assumes "distinct (map fst al)"
  shows "length al \<le> 2 ^ 32"
proof -
  have "length al = card (set (map fst al))"
    using assms distinct_card [of "map fst al"] by simp
  also have "\<dots> \<le> card (UNIV :: frame_id_t set)" by (rule card_mono) simp_all
  also have "\<dots> = 2 ^ 32" by (simp add: card_word)
  finally show ?thesis .
qed

lemma replacer_inv_new: "replacer_inv (LRUKReplacer_new n k)"
  by (simp add: replacer_inv_def LRUKReplacer_new_def)

lemma less_succ_word:
  fixes t :: size_t
  assumes "t < now" "now + 1 \<noteq> 0"
  shows "t < now + 1"
proof -
  have "unat (now + 1) = Suc (unat now)" using assms(2) unatSuc [of now] by (simp add: add.commute)
  then show ?thesis using assms(1) by (simp add: word_less_nat_alt)
qed

lemma node_inv_later:
  assumes "node_inv K now n" "now + 1 \<noteq> 0"
  shows "node_inv K (now + 1) n"
  using assms less_succ_word by (auto simp: node_inv_def list_all_iff)

lemma RecordAccess_inv:
  assumes inv: "replacer_inv r" and K: "replacer_k r \<noteq> 0"
    and now: "current_timestamp r + 1 \<noteq> 0" and ra: "RecordAccess r f = Inr r'"
  shows "replacer_inv r'"
proof -
  let ?K = "replacer_k r" and ?now = "current_timestamp r"
  let ?P = "\<lambda>(f, n). is_evictable n"
  from inv have dist: "distinct (map fst (node_store r))"
    and all: "list_all (\<lambda>(f, n). node_inv ?K ?now n) (node_store r)"
    and cnt: "unat (curr_size r) = length (filter ?P (node_store r))"
    by (simp_all add: replacer_inv_def)
  have all': "list_all (\<lambda>(f, n). node_inv ?K (?now + 1) n) (node_store r)"
    using all node_inv_later [OF _ now] by (auto simp: list_all_iff)
  have "unat (?now + 1) = Suc (unat ?now)"
    using now unatSuc [of ?now] by (simp add: add.commute)
  then have lt: "?now < ?now + 1" by (simp add: word_less_nat_alt)
  show ?thesis
  proof (cases "map_of (node_store r) f")
    case None
    let ?n = "\<lparr>history = [?now], node_k = 1, fid = f, is_evictable = False\<rparr>"
    from ra None have r': "r' = r\<lparr>node_store := AList.update f ?n (node_store r),
                                   current_timestamp := ?now + 1\<rparr>"
      by (simp add: RecordAccess_def split: if_splits)
    have "unat ?K \<noteq> 0" using K by (simp add: unat_eq_0)
    then have "1 \<le> ?K" by (simp add: word_le_nat_alt)
    then have ni: "node_inv ?K (?now + 1) ?n" using lt by (simp add: node_inv_def)
    show ?thesis
      unfolding replacer_inv_def r'
      using dist cnt filter_update_absent [OF None, of ?P ?n]
        list_all_update [OF all', of f ?n] ni
      by (simp add: distinct_update)
  next
    case (Some n)
    from all Some have n: "node_inv ?K ?now n"
      by (auto simp: list_all_iff dest: map_of_SomeD)
    define n2 where "n2 = (if node_k n = ?K
                          then n\<lparr>history := tl (history n) @ [?now], node_k := ?K\<rparr>
                          else n\<lparr>history := history n @ [?now], node_k := node_k n + 1\<rparr>)"
    from ra Some have r': "r' = r\<lparr>node_store := AList.update f n2 (node_store r),
                                   current_timestamp := ?now + 1\<rparr>"
      by (auto simp: RecordAccess_def n2_def Let_def split: if_splits)
    have ev: "is_evictable n2 = is_evictable n" by (simp add: n2_def)
    have "node_inv ?K ?now n" by (rule n)
    then have h: "history n \<noteq> []" "node_k n \<le> ?K" "list_all (\<lambda>t. t < ?now + 1) (history n)"
      using less_succ_word [OF _ now] by (auto simp: node_inv_def list_all_iff)
    have ni: "node_inv ?K (?now + 1) n2"
    proof (cases "node_k n = ?K")
      case True
      then show ?thesis using h lt
        by (cases "history n") (auto simp: node_inv_def n2_def)
    next
      case False
      then have "node_k n < ?K" using h(2) by simp
      then have "node_k n + 1 \<le> ?K" by (rule inc_le)
      then show ?thesis using h lt False by (auto simp: node_inv_def n2_def)
    qed
    show ?thesis
      unfolding replacer_inv_def r'
      using dist cnt filter_update_present [OF dist Some, of ?P n2] ev
        list_all_update [OF all', of f n2] ni
      by (simp add: distinct_update)
  qed
qed


lemma count_le_2_32:
  assumes "replacer_inv r"
  shows "unat (curr_size r) \<le> 2 ^ 32"
proof -
  have "length (filter (\<lambda>(f, n). is_evictable n) (node_store r)) \<le> length (node_store r)"
    by (rule length_filter_le)
  also have "\<dots> \<le> 2 ^ 32"
    by (rule distinct_keys_length) (use assms in \<open>simp add: replacer_inv_def\<close>)
  finally show ?thesis using assms by (simp add: replacer_inv_def)
qed

lemma filter_present_pos:
  assumes "map_of al k = Some v" "P (k, v)"
  shows "0 < length (filter P al)"
proof -
  have "(k, v) \<in> set (filter P al)" using assms map_of_SomeD [OF assms(1)] by simp
  then show ?thesis by (cases "filter P al") auto
qed

lemma unat_succ_small:
  fixes c :: size_t
  assumes "unat c \<le> 2 ^ 32"
  shows "unat (c + 1) = unat c + 1"
proof -
  have "unat c + unat (1 :: size_t) < 2 ^ LENGTH(64)" using assms by simp
  then show ?thesis by (simp add: unat_add_lem [THEN iffD1])
qed

lemma unat_pred_pos:
  fixes c :: size_t
  assumes "0 < unat c"
  shows "unat (c - 1) = unat c - 1"
proof -
  have "c \<noteq> 0" using assms by auto
  then show ?thesis by (rule unat_minus_one)
qed

lemma SetEvictable_inv:
  assumes inv: "replacer_inv r" and se: "SetEvictable r f b = Inr r'"
  shows "replacer_inv r'"
proof -
  let ?K = "replacer_k r" and ?now = "current_timestamp r"
  let ?P = "\<lambda>(f, n). is_evictable n"
  from inv have dist: "distinct (map fst (node_store r))"
    and all: "list_all (\<lambda>(f, n). node_inv ?K ?now n) (node_store r)"
    and cnt: "unat (curr_size r) = length (filter ?P (node_store r))"
    by (simp_all add: replacer_inv_def)
  from se obtain n where n: "map_of (node_store r) f = Some n"
    by (auto simp: SetEvictable_def split: option.splits)
  let ?n' = "n\<lparr>is_evictable := b\<rparr>"
  let ?c = "if is_evictable n \<and> \<not> b then curr_size r - 1
            else if \<not> is_evictable n \<and> b then curr_size r + 1 else curr_size r"
  from se n have r': "r' = r\<lparr>curr_size := ?c, node_store := AList.update f ?n' (node_store r)\<rparr>"
    by (simp add: SetEvictable_def)
  from all n have "node_inv ?K ?now n" by (auto simp: list_all_iff dest: map_of_SomeD)
  then have ni: "node_inv ?K ?now ?n'" by (simp add: node_inv_def)
  have fc: "length (filter ?P (AList.update f ?n' (node_store r))) + (if is_evictable n then 1 else 0) =
            length (filter ?P (node_store r)) + (if b then 1 else 0)"
    using filter_update_present [OF dist n, of ?P ?n'] by simp
  have "unat ?c = length (filter ?P (AList.update f ?n' (node_store r)))"
  proof (cases "is_evictable n")
    case True
    then have pos: "0 < unat (curr_size r)"
      using filter_present_pos [OF n, of ?P] cnt by simp
    show ?thesis using True fc cnt pos unat_pred_pos [OF pos] by (simp split: if_splits)
  next
    case False
    show ?thesis using False fc cnt unat_succ_small [OF count_le_2_32 [OF inv]]
      by (simp split: if_splits)
  qed
  then show ?thesis
    unfolding replacer_inv_def r'
    using dist list_all_update [OF all, of f ?n'] ni by (simp add: distinct_update)
qed

lemma erase_evictable_inv:
  assumes inv: "replacer_inv r" and n: "map_of (node_store r) f = Some n" and ev: "is_evictable n"
  shows "replacer_inv (r\<lparr>node_store := AList.delete f (node_store r), curr_size := curr_size r - 1\<rparr>)"
proof -
  let ?P = "\<lambda>(f, n). is_evictable n"
  from inv have dist: "distinct (map fst (node_store r))"
    and all: "list_all (\<lambda>(f, n). node_inv (replacer_k r) (current_timestamp r) n) (node_store r)"
    and cnt: "unat (curr_size r) = length (filter ?P (node_store r))"
    by (simp_all add: replacer_inv_def)
  have fc: "length (filter ?P (AList.delete f (node_store r))) + 1 = length (filter ?P (node_store r))"
    using filter_delete_present [OF dist n, of ?P] ev by simp
  have pos: "0 < unat (curr_size r)"
    using filter_present_pos [OF n, of ?P] ev cnt by simp
  have "unat (curr_size r - 1) = length (filter ?P (AList.delete f (node_store r)))"
    using fc cnt pos unat_pred_pos [OF pos] by simp
  then show ?thesis
    unfolding replacer_inv_def
    using dist list_all_delete [OF all, of f] by (simp add: distinct_delete)
qed

lemma Remove_inv:
  assumes inv: "replacer_inv r" and rm: "Remove r f = Inr r'"
  shows "replacer_inv r'"
proof (cases "map_of (node_store r) f")
  case None
  then show ?thesis using inv rm by (simp add: Remove_def)
next
  case (Some n)
  then have "is_evictable n" and "r' = r\<lparr>node_store := AList.delete f (node_store r),
                                          curr_size := curr_size r - 1\<rparr>"
    using rm by (auto simp: Remove_def split: if_splits)
  then show ?thesis using erase_evictable_inv [OF inv Some] by simp
qed

lemma Evict_inv:
  assumes inv: "replacer_inv r" and e: "Evict r f = Inr (b, v, r')"
  shows "replacer_inv r'"
proof (cases "curr_size r = 0")
  case True
  then show ?thesis using inv e by (simp add: Evict_def)
next
  case False
  let ?K = "replacer_k r" and ?now = "current_timestamp r"
  have all: "list_all (\<lambda>(f, n). node_inv ?K ?now n) (node_store r)"
    and dist: "distinct (map fst (node_store r))"
    using inv by (simp_all add: replacer_inv_def)
  from Evict_loop_good [OF good_init all, of f] obtain st'
    where loop: "Evict_loop ?K ?now (node_store r) (False, 0, 0, f) = Inr st'"
      and g: "good ?K ?now f (node_store r) st'"
    by auto
  obtain found diff earliest w where st': "st' = (found, diff, earliest, w)"
    by (cases st') auto
  show ?thesis
  proof (cases found)
    case nf: False
    then show ?thesis using inv e False loop by (simp add: Evict_def st')
  next
    case True
    then have "good ?K ?now f (node_store r) (True, diff, earliest, w)" using g st' by simp
    from good_foundD [OF this] obtain nv where nv: "(w, nv) \<in> set (node_store r)" "is_evictable nv"
      by blast
    have m: "map_of (node_store r) w = Some nv" using dist nv(1) by simp
    have "r' = r\<lparr>node_store := AList.delete w (node_store r), curr_size := curr_size r - 1\<rparr>"
      using e False loop True by (auto simp: Evict_def st')
    then show ?thesis using erase_evictable_inv [OF inv m nv(2)] by simp
  qed
qed

text \<open>
  C3. When the state of the replacer satisfies its invariant and a frame is evictable,
  \<open>Evict\<close> returns \<open>true\<close> with an evictable frame whose node beats every evictable node in
  the order of the backward k-distance: a victim with fewer than \<open>K\<close> accesses has the
  smallest oldest timestamp among the evictable nodes with fewer than \<open>K\<close> accesses; a
  victim with \<open>K\<close> accesses is chosen only when every evictable node has \<open>K\<close> accesses,
  and then \<open>current_timestamp\<close> minus its oldest timestamp is the largest. The node of the
  victim is erased and \<open>curr_size_\<close> decremented. When no frame is evictable \<open>Evict\<close>
  returns \<open>false\<close> and leaves the replacer and \<open>*frame_id\<close> as they were.
\<close>

theorem Evict_max_k_distance:
  assumes inv: "replacer_inv r"
  shows "if \<exists>(f, n) \<in> set (node_store r). is_evictable n
         then \<exists>v nv.
                Evict r frame_id =
                  Inr (True, v, r\<lparr>node_store := AList.delete v (node_store r),
                                  curr_size := curr_size r - 1\<rparr>) \<and>
                map_of (node_store r) v = Some nv \<and> is_evictable nv \<and>
                (\<forall>(f, n) \<in> set (node_store r).
                   is_evictable n \<longrightarrow> beats (replacer_k r) (current_timestamp r) nv n)
         else Evict r frame_id = Inr (False, frame_id, r)"
proof -
  let ?K = "replacer_k r" and ?now = "current_timestamp r"
  have all: "list_all (\<lambda>(f, n). node_inv ?K ?now n) (node_store r)"
    and dist: "distinct (map fst (node_store r))"
    using inv by (simp_all add: replacer_inv_def)
  from Evict_loop_good [OF good_init all, of frame_id] obtain st'
    where loop: "Evict_loop ?K ?now (node_store r) (False, 0, 0, frame_id) = Inr st'"
      and g: "good ?K ?now frame_id (node_store r) st'"
    by auto
  obtain found diff earliest v where st': "st' = (found, diff, earliest, v)"
    by (cases st') auto
  show ?thesis
  proof (cases "\<exists>(f, n) \<in> set (node_store r). is_evictable n")
    case True
    then obtain f n where fn: "(f, n) \<in> set (node_store r)" "is_evictable n" by auto
    have nz: "curr_size r \<noteq> 0" by (rule curr_size_nonzero [OF inv fn])
    have found: found
    proof (rule ccontr)
      assume "\<not> found"
      then have "\<forall>(f, n) \<in> set (node_store r). \<not> is_evictable n"
        using g by (simp add: good_def st')
      then show False using fn by auto
    qed
    then have "good ?K ?now frame_id (node_store r) (True, diff, earliest, v)"
      using g st' by simp
    from good_foundD [OF this] obtain nv where nv: "(v, nv) \<in> set (node_store r)"
      "is_evictable nv"
      "\<forall>f n. (f, n) \<in> set (node_store r) \<longrightarrow> is_evictable n \<longrightarrow> beats ?K ?now nv n"
      by blast
    have m: "map_of (node_store r) v = Some nv"
      using dist nv(1) by simp
    have "Evict r frame_id =
            Inr (True, v, r\<lparr>node_store := AList.delete v (node_store r),
                            curr_size := curr_size r - 1\<rparr>)"
      using nz loop found by (simp add: Evict_def st')
    with m nv(2,3) True show ?thesis by auto
  next
    case False
    have "Evict r frame_id = Inr (False, frame_id, r)"
    proof (cases "curr_size r = 0")
      case True
      then show ?thesis by (simp add: Evict_def)
    next
      case nz: False
      have "\<not> found"
      proof
        assume found
        then have "good ?K ?now frame_id (node_store r) (True, diff, earliest, v)"
          using g st' by simp
        from good_foundD [OF this] False show False by blast
      qed
      moreover from this have "v = frame_id" using g by (simp add: good_def st')
      ultimately show ?thesis using nz loop by (simp add: Evict_def st')
    qed
    with False show ?thesis by simp
  qed
qed

theorem Evict_max_k_distance_witness:
  "replacer_inv r0 \<and>
   Evict r0 (- 1) =
     Inr (True, 1,
          r0\<lparr>node_store := [(0, \<lparr>history = [0, 2], node_k = 2, fid = 0, is_evictable = True\<rparr>)],
             curr_size := 1\<rparr>)"
proof -
  have inv: "replacer_inv r0"
    by (simp add: replacer_inv_def r0_def node_inv_def)
  have ev: "\<exists>(f, n) \<in> set (node_store r0). is_evictable n"
    by (simp add: r0_def)
  from Evict_max_k_distance [OF inv, of "- 1"] ev obtain v nv where
    e: "Evict r0 (- 1) = Inr (True, v, r0\<lparr>node_store := AList.delete v (node_store r0),
                                  curr_size := curr_size r0 - 1\<rparr>)"
    and m: "map_of (node_store r0) v = Some nv"
    and b: "\<forall>(f, n) \<in> set (node_store r0).
                   is_evictable n \<longrightarrow> beats (replacer_k r0) (current_timestamp r0) nv n"
    by auto
  have "v = 1"
    using m b by (auto simp: r0_def beats_def split: if_splits)
  with e inv show ?thesis by (simp add: r0_def)
qed


text \<open>
  \<open>RecordAccess\<close> throws exactly when the frame id is greater than the size, read as
  \<open>int32_t\<close>.
\<close>

lemma RecordAccess_throws_iff:
  "(\<exists>msg. RecordAccess r f = Inl (Exception msg)) \<longleftrightarrow>
   (ucast (replacer_size r) :: 32 word) <s f"
  by (auto simp: RecordAccess_def Let_def split: option.splits)

text \<open>
  C6. \<open>record_access\<close> is claimed to throw for every frame id greater than or equal to the
  pool size. The guard is \<open>frame_id > replacer_size_\<close>: on a replacer for 3 frames the
  call with frame id 3 does not throw, it creates a node for frame 3.
\<close>

theorem RecordAccess_accepts_replacer_size:
  "RecordAccess (LRUKReplacer_new 3 2) 3 =
     Inr \<lparr>node_store = [(3, \<lparr>history = [0], node_k = 1, fid = 3, is_evictable = False\<rparr>)],
          current_timestamp = 1, curr_size = 0, replacer_size = 3, replacer_k = 2\<rparr>"
  by (simp add: RecordAccess_def LRUKReplacer_new_def word_sless_alt)

subsection \<open>The buffer pool\<close>

lemma bpm0_eq:
  "bpm0 = \<lparr>pool_size = 2, pages = [free_page, free_page], page_table = [], free_list = [0, 1],
      replacer = \<lparr>node_store = [], current_timestamp = 0, curr_size = 0,
                  replacer_size = 2, replacer_k = 2\<rparr>,
      next_page_id = 0, disk = disk0\<rparr>"
proof -
  have u: "unat (2 :: size_t) = 2" by simp
  have r: "replicate 2 (Page_new 2) = [free_page, free_page]"
    by (simp add: numeral_2_eq_2 Page_new_def free_page_def)
  have m: "map (\<lambda>i. word_of_nat i) [0 ..< 2] = [0, 1 :: frame_id_t]"
    by (simp add: upt_rec)
  show ?thesis
    unfolding bpm0_def BufferPoolManager_new_def LRUKReplacer_new_def u r m by simp
qed

lemma NewPage_bpm0: "NewPage bpm0 = Inr (Some (0, 0), a1)"
  by (simp add: bpm0_eq NewPage_def acquire_frame_def take_frame_def write_old_page_def
      frame_index_def INVALID_FRAME_ID_def INVALID_PAGE_ID_def free_page_def AllocatePage_def
      install_page_def RecordAccess_def SetEvictable_def a1_def bpm_state_def word_sless_alt word_sle_eq
      Let_def Size_def)

lemma UnpinPage_a1: "UnpinPage a1 0 False = Inr (True, a2)"
  by (simp add: UnpinPage_def a1_def a2_def bpm_state_def frame_index_def SetEvictable_def
      word_sless_alt word_sle_eq Let_def)

lemma FetchPage_a2: "FetchPage a2 0 = Inr (Some 0, a3)"
  by (simp add: FetchPage_def a2_def a3_def bpm_state_def RecordAccess_def SetEvictable_def
      word_sless_alt word_sle_eq Let_def)

lemma DeletePage_a3: "DeletePage a3 0 = Inl (Exception ''Remove: is called on a non-evictable frame'')"
  by (simp add: DeletePage_def a3_def bpm_state_def frame_index_def Remove_def
      word_sless_alt word_sle_eq Let_def)


lemma FetchPage_bpm0: "FetchPage bpm0 1 = Inr (Some 0, b1)"
  by (simp add: bpm0_eq FetchPage_def acquire_frame_def take_frame_def write_old_page_def
      frame_index_def INVALID_FRAME_ID_def INVALID_PAGE_ID_def free_page_def disk0_def
      install_page_def RecordAccess_def SetEvictable_def b1_def bpm_state_def word_sless_alt
      word_sle_eq Let_def)

lemma UnpinPage_b1: "UnpinPage b1 1 True = Inr (True, b2)"
  by (simp add: UnpinPage_def b1_def b2_def bpm_state_def frame_index_def SetEvictable_def
      word_sless_alt word_sle_eq Let_def)

text \<open>
  The hit path of \<open>FetchPage\<close> in general: only the replacer changes; the frames, the
  pin counts among them, are as before.
\<close>

lemma FetchPage_hit_frames:
  assumes "map_of (page_table s) p = Some f" and "FetchPage s p = Inr (x, s')"
  shows "x = Some f \<and> pages s' = pages s \<and> page_table s' = page_table s \<and>
         free_list s' = free_list s \<and> disk s' = disk s \<and> next_page_id s' = next_page_id s"
  using assms by (auto simp: FetchPage_def split: sum.splits)

text \<open>
  C1. \<open>fetch_page\<close> on a resident page is claimed to increment \<open>pin_count\<close>. The page 0 is
  created, unpinned (\<open>pin_count = 0\<close>) and fetched again: the hit path records the access
  and makes the frame non-evictable, and \<open>pin_count\<close> is still \<open>0\<close>.
\<close>

theorem FetchPage_hit_keeps_pin_count:
  "NewPage bpm0 = Inr (Some (0, 0), a1) \<and>
   UnpinPage a1 0 False = Inr (True, a2) \<and>
   map_of (page_table a2) 0 = Some 0 \<and>
   pin_count (pages a2 ! 0) = 0 \<and>
   FetchPage a2 0 = Inr (Some 0, a3) \<and>
   pin_count (pages a3 ! 0) = 0 \<and>
   map_of (node_store (replacer a3)) 0 =
     Some \<lparr>history = [0, 1], node_k = 2, fid = 0, is_evictable = False\<rparr>"
  using NewPage_bpm0 UnpinPage_a1 FetchPage_a2
  by (simp add: a2_def a3_def bpm_state_def)

text \<open>
  \<open>FlushPage\<close> in general: it returns \<open>false\<close> and changes nothing when the page is not in
  the page table; otherwise it writes the bytes of the frame to disk, zeroes the frame,
  which stays in the page table with its pin count, and marks it clean.
\<close>

lemma FlushPage_writes_then_resets:
  assumes "\<forall>f. map_of (page_table s) p = Some f \<longrightarrow> 0 \<le>s f \<and> nat (sint f) < length (pages s)"
  shows "case map_of (page_table s) p of
           None \<Rightarrow> FlushPage s p = Inr (False, s)
         | Some f \<Rightarrow>
             (\<exists>s'. FlushPage s p = Inr (True, s') \<and>
                disk s' p = page_data (pages s ! nat (sint f)) \<and>
                (\<forall>q. q \<noteq> p \<longrightarrow> disk s' q = disk s q) \<and>
                page_data (pages s' ! nat (sint f)) =
                  replicate (length (page_data (pages s ! nat (sint f)))) 0 \<and>
                \<not> is_dirty (pages s' ! nat (sint f)) \<and>
                page_id (pages s' ! nat (sint f)) = page_id (pages s ! nat (sint f)) \<and>
                pin_count (pages s' ! nat (sint f)) = pin_count (pages s ! nat (sint f)) \<and>
                length (pages s') = length (pages s) \<and>
                (\<forall>j. j \<noteq> nat (sint f) \<longrightarrow> pages s' ! j = pages s ! j) \<and>
                page_table s' = page_table s \<and> free_list s' = free_list s \<and>
                replacer s' = replacer s \<and> next_page_id s' = next_page_id s \<and>
                pool_size s' = pool_size s)"
proof (cases "map_of (page_table s) p")
  case None
  then show ?thesis by (simp add: FlushPage_def)
next
  case (Some f)
  with assms have r: "0 \<le>s f" "nat (sint f) < length (pages s)" by simp_all
  then have "frame_index (pages s) f = Inr (nat (sint f))"
    by (simp add: frame_index_def)
  with Some r(2) show ?thesis
    by (simp add: FlushPage_def Let_def ResetMemory_def)
qed

text \<open>
  What the zeroed frame leads to. After \<open>FetchPage(1)\<close> and \<open>FlushPage(1)\<close> the page is
  unpinned as dirty and two other pages are fetched: the frame of page 1 is evicted
  and its zero bytes are written over the page on disk.
\<close>

lemma FlushPage_then_eviction_loses_page:
  "disk b1_flushed 1 = [7, 7] \<and>
   (case UnpinPage b1_flushed 1 True of
      Inr (u, s2) \<Rightarrow>
        (case FetchPage s2 2 of
           Inr (f2, s3) \<Rightarrow>
             (case FetchPage s3 3 of
                Inr (f3, s4) \<Rightarrow> (u, f2, f3, disk s4 1)))) = (True, Some 1, Some 0, [0, 0])"
  by (simp add: b1_flushed_def b1_def bpm_state_def free_page_def disk0_def
      UnpinPage_def FetchPage_def acquire_frame_def take_frame_def write_old_page_def
      install_page_def frame_index_def RecordAccess_def SetEvictable_def Evict_def Evict_step_def
      front_def Size_def ResetMemory_def INVALID_FRAME_ID_def INVALID_PAGE_ID_def
      word_sless_alt word_sle_eq Let_def)

text \<open>
  C2. After \<open>flush_page(p)\<close> returns true the bytes on disk are claimed to equal the bytes
  in the frame of \<open>p\<close>. The page 1 is read into frame 0 as \<open>[7, 7]\<close>; \<open>FlushPage(1)\<close> returns
  \<open>true\<close>, the disk holds \<open>[7, 7]\<close>, and the frame, still in the page table, pinned and now
  clean, holds \<open>[0, 0]\<close>.
\<close>

theorem FlushPage_frame_differs_from_disk:
  "FetchPage bpm0 1 = Inr (Some 0, b1) \<and>
   FlushPage b1 1 = Inr (True, b1_flushed) \<and>
   map_of (page_table b1_flushed) 1 = Some 0 \<and>
   pin_count (pages b1_flushed ! 0) = 1 \<and>
   \<not> is_dirty (pages b1_flushed ! 0) \<and>
   disk b1_flushed 1 = [7, 7] \<and>
   page_data (pages b1_flushed ! 0) = [0, 0] \<and>
   disk b1_flushed 1 \<noteq> page_data (pages b1_flushed ! 0)"
  using FetchPage_bpm0
  by (simp add: FlushPage_def b1_def b1_flushed_def bpm_state_def frame_index_def ResetMemory_def
      word_sle_eq Let_def)

text \<open>
  C4. After \<open>flush_all_pages\<close> the frame of every resident page is claimed to be clean.
  The page 1 lives in frame 0 and is dirty. \<open>FlushAllPages\<close> writes it to disk, then
  resets \<open>pages_[1]\<close>, the frame with the index of the page id: frame 0 is still dirty.
\<close>

theorem FlushAllPages_leaves_frame_dirty:
  "FetchPage bpm0 1 = Inr (Some 0, b1) \<and>
   UnpinPage b1 1 True = Inr (True, b2) \<and>
   FlushAllPages ahead b2 = Inr (b2\<lparr>disk := disk0(1 := [7, 7])\<rparr>) \<and>
   map_of (page_table b2) 1 = Some 0 \<and>
   is_dirty (pages (b2\<lparr>disk := disk0(1 := [7, 7])\<rparr>) ! 0)"
proof -
  have "FlushAllPages ahead b2 = Inr (b2\<lparr>disk := disk0(1 := [7, 7])\<rparr>)"
    by (cases ahead)
       (simp_all add: FlushAllPages_def b2_def bpm_state_def frame_index_def ResetMemory_def
          free_page_def word_sle_eq Let_def)
  moreover have "map_of (page_table b2) 1 = Some 0"
    and "is_dirty (pages (b2\<lparr>disk := disk0(1 := [7, 7])\<rparr>) ! 0)"
    by (simp_all add: b2_def bpm_state_def)
  ultimately show ?thesis using FetchPage_bpm0 UnpinPage_b1 by simp
qed

text \<open>
  With two pages the bytes that reach the disk depend on the order of the two threads.
  In \<open>two_pages\<close> the first turn of the second loop resets \<open>pages_[1]\<close>, the frame of page
  0. When the worker has written both requests by then (\<open>ahead = [1]\<close>) the disk keeps
  \<open>[7, 7]\<close> for page 0; when it has written only the awaited one (\<open>ahead = []\<close>) the zero
  bytes are written for page 0.
\<close>

lemma FlushAllPages_order_of_threads:
  "FetchPage b1 0 = Inr (Some 1, two_pages) \<and>
   (case FlushAllPages [1] two_pages of Inr s \<Rightarrow> (disk s 1, disk s 0)) = ([7, 7], [7, 7]) \<and>
   (case FlushAllPages [] two_pages of Inr s \<Rightarrow> (disk s 1, disk s 0)) = ([7, 7], [0, 0])"
proof -
  have "FetchPage b1 0 = Inr (Some 1, two_pages)"
    by (simp add: FetchPage_def acquire_frame_def take_frame_def write_old_page_def
        frame_index_def INVALID_FRAME_ID_def INVALID_PAGE_ID_def free_page_def disk0_def
        install_page_def RecordAccess_def SetEvictable_def b1_def two_pages_def bpm_state_def
        word_sless_alt word_sle_eq Let_def)
  then show ?thesis
    by (simp add: FlushAllPages_def two_pages_def frame_index_def ResetMemory_def word_sle_eq
        Let_def disk0_def)
qed

text \<open>
  \<open>DeletePage\<close> in general: the three outcomes, and the exception of the replacer when
  the frame is not pinned and its node is not evictable.
\<close>

lemma DeletePage_absent:
  "map_of (page_table s) p = None \<Longrightarrow> DeletePage s p = Inr (True, s)"
  by (simp add: DeletePage_def)

lemma DeletePage_pinned:
  "map_of (page_table s) p = Some f \<Longrightarrow> frame_index (pages s) f = Inr i \<Longrightarrow>
   0 <s pin_count (pages s ! i) \<Longrightarrow> DeletePage s p = Inr (False, s)"
  by (simp add: DeletePage_def)

lemma DeletePage_unpinned:
  "map_of (page_table s) p = Some f \<Longrightarrow> frame_index (pages s) f = Inr i \<Longrightarrow>
   \<not> 0 <s pin_count (pages s ! i) \<Longrightarrow>
   map_of (node_store (replacer s)) f = Some n \<Longrightarrow> is_evictable n \<Longrightarrow>
   DeletePage s p =
     Inr (True,
          s\<lparr>disk := (if is_dirty (pages s ! i) then (disk s)(p := page_data (pages s ! i))
                     else disk s),
            page_table := AList.delete p (page_table s),
            replacer := (replacer s)\<lparr>node_store := AList.delete f (node_store (replacer s)),
                                     curr_size := curr_size (replacer s) - 1\<rparr>,
            pages := (pages s)[i := (pages s ! i)
                                      \<lparr>is_dirty := False, pin_count := 0,
                                       page_id := INVALID_PAGE_ID,
                                       page_data :=
                                         replicate (length (page_data (pages s ! i))) 0\<rparr>],
            free_list := free_list s @ [f]\<rparr>)"
  by (simp add: DeletePage_def Remove_def Let_def ResetMemory_def)

lemma DeletePage_not_evictable:
  "map_of (page_table s) p = Some f \<Longrightarrow> frame_index (pages s) f = Inr i \<Longrightarrow>
   \<not> 0 <s pin_count (pages s ! i) \<Longrightarrow>
   map_of (node_store (replacer s)) f = Some n \<Longrightarrow> \<not> is_evictable n \<Longrightarrow>
   DeletePage s p = Inl (Exception ''Remove: is called on a non-evictable frame'')"
  by (simp add: DeletePage_def Remove_def Let_def)

text \<open>
  C5. \<open>delete_page\<close> on a resident page with \<open>pin_count = 0\<close> is claimed to delete the page
  and return \<open>true\<close>. In the state \<open>a3\<close>, reached by \<open>NewPage\<close>, \<open>UnpinPage(0, false)\<close> and
  \<open>FetchPage(0)\<close>, the page 0 is resident with \<open>pin_count = 0\<close> and \<open>DeletePage(0)\<close> ends
  with the exception of \<open>LRUKReplacer::Remove\<close>.
\<close>

theorem DeletePage_throws_after_hit:
  "NewPage bpm0 = Inr (Some (0, 0), a1) \<and>
   UnpinPage a1 0 False = Inr (True, a2) \<and>
   FetchPage a2 0 = Inr (Some 0, a3) \<and>
   map_of (page_table a3) 0 = Some 0 \<and>
   pin_count (pages a3 ! 0) = 0 \<and>
   DeletePage a3 0 = Inl (Exception ''Remove: is called on a non-evictable frame'')"
  using NewPage_bpm0 UnpinPage_a1 FetchPage_a2 DeletePage_a3
  by (simp add: a3_def bpm_state_def)

subsection \<open>The page guards\<close>

text \<open>A guard that has been moved from has a null page pointer.\<close>

lemma moved_from_guard:
  "page (snd (BasicPageGuard_move that)) = None \<and> \<not> bpm (snd (BasicPageGuard_move that))"
  by (simp add: BasicPageGuard_move_def Reset_def)

text \<open>
  C10. \<open>UpgradeRead\<close> and \<open>UpgradeWrite\<close> end in the dereference of a null pointer exactly
  when the page pointer of the guard is null; \<open>Drop\<close> and the destructor of a guard with
  a null page pointer leave the pool as it is and only reset the guard.
\<close>

theorem Upgrade_null_guard:
  "(UpgradeRead s g = Inl NullDereference \<longleftrightarrow> page g = None) \<and>
   (UpgradeWrite s g = Inl NullDereference \<longleftrightarrow> page g = None) \<and>
   (page g = None \<longrightarrow>
      Drop s g = Inr (s, Reset g) \<and> BasicPageGuard_destroy s g = Inr (s, Reset g))"
proof (intro conjI impI)
  show "UpgradeRead s g = Inl NullDereference \<longleftrightarrow> page g = None"
    by (auto simp: UpgradeRead_def Let_def frame_index_def RLatch_def
        split: option.splits sum.splits if_splits)
  show "UpgradeWrite s g = Inl NullDereference \<longleftrightarrow> page g = None"
    by (auto simp: UpgradeWrite_def Let_def frame_index_def WLatch_def
        split: option.splits sum.splits if_splits)
  assume "page g = None"
  then show "Drop s g = Inr (s, Reset g)" by (simp add: Drop_def split: bool.splits)
  then show "BasicPageGuard_destroy s g = Inr (s, Reset g)"
    by (simp add: BasicPageGuard_destroy_def)
qed

theorem Upgrade_null_guard_witness:
  "FetchPageBasic no_frames 5 = Inr (empty_guard, no_frames) \<and>
   page empty_guard = None \<and>
   UpgradeRead no_frames empty_guard = Inl NullDereference \<and>
   UpgradeWrite no_frames empty_guard = Inl NullDereference \<and>
   Drop no_frames empty_guard = Inr (no_frames, Reset empty_guard) \<and>
   BasicPageGuard_destroy no_frames empty_guard = Inr (no_frames, Reset empty_guard)"
proof -
  have f: "FetchPageBasic no_frames 5 = Inr (empty_guard, no_frames)"
    by (simp add: FetchPageBasic_def FetchPage_def acquire_frame_def take_frame_def no_frames_def
        BufferPoolManager_new_def LRUKReplacer_new_def Size_def empty_guard_def)
  have n: "page empty_guard = None" by (simp add: empty_guard_def)
  from Upgrade_null_guard [of no_frames empty_guard] f n show ?thesis by simp
qed

subsection \<open>The trie\<close>

lemma closed_iff:
  "closed h \<longleftrightarrow> (\<forall>a < length h. \<forall>(c, b) \<in> set (children (h ! a)). b < length h)"
proof -
  have "closed h \<longleftrightarrow> (\<forall>n \<in> set h. \<forall>(c, b) \<in> set (children n). b < length h)"
    by (simp add: closed_def list_all_iff)
  then show ?thesis by (simp add: all_set_conv_all_nth)
qed

lemma closed_set:
  assumes "closed h" "a < length h" "(c, b) \<in> set (children (h ! a))"
  shows "b < length h"
  using assms by (auto simp: closed_iff)

lemma closedD:
  assumes "closed h" "a < length h" "map_of (children (h ! a)) c = Some b"
  shows "b < length h"
  using closed_set [OF assms(1,2)] map_of_SomeD [OF assms(3)] by blast

lemma closedI:
  assumes "\<And>a c b. a < length h \<Longrightarrow> (c, b) \<in> set (children (h ! a)) \<Longrightarrow> b < length h"
  shows "closed h"
  using assms by (auto simp: closed_iff)

lemma set_update_subset: "(c', b) \<in> set (AList.update c x al) \<Longrightarrow> (c', b) \<in> set al \<or> b = x"
  by (induction al) (auto split: if_splits)

lemma set_delete_subset: "(c', b) \<in> set (AList.delete c al) \<Longrightarrow> (c', b) \<in> set al"
  by (simp add: AList.delete_eq)

lemma agreeD: "agree h g \<Longrightarrow> a < length h \<Longrightarrow> g ! a = h ! a"
  by (metis agree_def nth_take)

lemma agreeI: "length h \<le> length g \<Longrightarrow> (\<And>a. a < length h \<Longrightarrow> g ! a = h ! a) \<Longrightarrow> agree h g"
  by (simp add: agree_def list_eq_iff_nth_eq)

lemma agree_length: "agree h g \<Longrightarrow> length h \<le> length g"
  by (simp add: agree_def)

lemma agree_refl: "agree h h"
  by (simp add: agree_def)

lemma agree_trans:
  assumes "agree h g" "agree g k"
  shows "agree h k"
proof (rule agreeI)
  have l: "length h \<le> length g" "length g \<le> length k"
    using assms by (simp_all add: agree_def)
  then show "length h \<le> length k" by simp
  fix a assume a: "a < length h"
  then have "a < length g" using l by simp
  then show "k ! a = h ! a" using agreeD [OF assms(2)] agreeD [OF assms(1) a] by simp
qed

lemma Get_walk_agree:
  assumes "closed h" "agree h g" "a < length h"
  shows "Get_walk g a key = Get_walk h a key \<and> (\<forall>t. Get_walk h a key = Some t \<longrightarrow> t < length h)"
  using assms(3)
proof (induction key arbitrary: a)
  case Nil
  then show ?case by simp
next
  case (Cons c key)
  have eq: "g ! a = h ! a" using assms(2) Cons.prems by (rule agreeD)
  show ?case
  proof (cases "map_of (children (h ! a)) c")
    case None
    then show ?thesis by (simp add: eq)
  next
    case (Some b)
    then have "b < length h" using closedD [OF assms(1) Cons.prems] by blast
    from Cons.IH [OF this] Some show ?thesis by (simp add: eq)
  qed
qed

lemma val_agree:
  assumes "closed h" "agree h g" "a < length h"
  shows "val g a key = val h a key"
proof (cases "Get_walk h a key")
  case None
  then show ?thesis using Get_walk_agree [OF assms, of key] by (simp add: val_def)
next
  case (Some t)
  then have "t < length h" "Get_walk g a key = Some t"
    using Get_walk_agree [OF assms, of key] by auto
  then show ?thesis using Some agreeD [OF assms(2)] by (simp add: val_def)
qed

lemma lookup_agree:
  assumes "closed h" "agree h g" "in_store h root"
  shows "lookup g root key = lookup h root key"
  using assms val_agree by (auto simp: lookup_def in_store_def split: option.splits)

lemma Trie_Get_lookup:
  "Trie_Get h root ty key =
     (case lookup h root key of None \<Rightarrow> None | Some (ty', v) \<Rightarrow> if ty' = ty then Some v else None)"
  by (simp add: Trie_Get_def lookup_def val_def split: option.splits)

lemma val_Nil [simp]: "val h a [] = node_value (h ! a)"
  by (simp add: val_def)

lemma val_Cons:
  "val h a (c # key) = (case map_of (children (h ! a)) c of None \<Rightarrow> None | Some b \<Rightarrow> val h b key)"
  by (simp add: val_def split: option.splits)

lemma Put_loop_frame:
  assumes "nn < length h"
  shows "length h \<le> length (Put_loop h cur nn v key) \<and>
         (\<forall>b < length h. b \<noteq> nn \<longrightarrow> Put_loop h cur nn v key ! b = h ! b) \<and>
         node_value (Put_loop h cur nn v key ! nn) = node_value (h ! nn) \<and>
         children (Put_loop h cur nn v key ! nn) =
           (case key of [] \<Rightarrow> children (h ! nn)
            | c # rest \<Rightarrow> AList.update c (length h) (children (h ! nn)))"
  using assms
proof (induction key arbitrary: h cur nn)
  case Nil
  then show ?case by simp
next
  case (Cons c rest)
  define cur' where "cur' = (case cur of Some a \<Rightarrow> map_of (children (h ! a)) c | None \<Rightarrow> None)"
  define node where "node = (if rest \<noteq> [] then
                    (case cur' of
                       Some a \<Rightarrow> h ! a
                     | None \<Rightarrow> \<lparr>children = [], node_value = None\<rparr>)
                  else
                    (case cur' of
                       Some a \<Rightarrow> \<lparr>children = children (h ! a), node_value = Some v\<rparr>
                     | None \<Rightarrow> \<lparr>children = [], node_value = Some v\<rparr>))"
  define h2 where "h2 = (h @ [node])[nn := ((h @ [node]) ! nn)
                      \<lparr>children := AList.update c (length h) (children ((h @ [node]) ! nn))\<rparr>]"
  have step: "Put_loop h cur nn v (c # rest) = Put_loop h2 cur' (length h) v rest"
    by (simp add: Let_def cur'_def node_def h2_def)
  have len2: "length h2 = Suc (length h)" by (simp add: h2_def)
  have old: "\<And>b. b < length h \<Longrightarrow> b \<noteq> nn \<Longrightarrow> h2 ! b = h ! b"
    by (simp add: h2_def nth_append)
  have atnn: "h2 ! nn = (h ! nn)\<lparr>children := AList.update c (length h) (children (h ! nn))\<rparr>"
    using Cons.prems by (simp add: h2_def nth_append)
  have "length h < length h2" by (simp add: len2)
  from Cons.IH [OF this, of cur'] have IH:
    "length h2 \<le> length (Put_loop h2 cur' (length h) v rest)"
    "\<And>b. b < length h2 \<Longrightarrow> b \<noteq> length h \<Longrightarrow> Put_loop h2 cur' (length h) v rest ! b = h2 ! b"
    by auto
  show ?case unfolding step
  proof (intro conjI allI impI)
    show "length h \<le> length (Put_loop h2 cur' (length h) v rest)" using IH(1) len2 by simp
    fix b assume "b < length h" "b \<noteq> nn"
    then show "Put_loop h2 cur' (length h) v rest ! b = h ! b"
      using IH(2) [of b] old len2 by simp
  next
    have e: "Put_loop h2 cur' (length h) v rest ! nn = h2 ! nn"
      using IH(2) [of nn] Cons.prems len2 by simp
    show "node_value (Put_loop h2 cur' (length h) v rest ! nn) = node_value (h ! nn)"
      by (simp add: e atnn)
    show "children (Put_loop h2 cur' (length h) v rest ! nn) =
           (case c # rest of [] \<Rightarrow> children (h ! nn)
            | c # rest \<Rightarrow> AList.update c (length h) (children (h ! nn)))"
      by (simp add: e atnn)
  qed
qed


lemma closed_append:
  assumes "closed h" and "\<And>c b. (c, b) \<in> set (children n) \<Longrightarrow> b < length h"
  shows "closed (h @ [n])"
proof (rule closedI)
  fix a c b assume a: "a < length (h @ [n])" and cb: "(c, b) \<in> set (children ((h @ [n]) ! a))"
  show "b < length (h @ [n])"
  proof (cases "a < length h")
    case True
    then have "b < length h" using closed_set [OF assms(1) True] cb by (simp add: nth_append)
    then show ?thesis by simp
  next
    case False
    then have "a = length h" using a by simp
    then have "b < length h" using assms(2) cb by simp
    then show ?thesis by simp
  qed
qed

lemma closed_update:
  assumes "closed h" "a < length h"
    and "\<And>c b. (c, b) \<in> set (children n) \<Longrightarrow> b < length h"
  shows "closed (h[a := n])"
proof (rule closedI)
  fix a' c b assume a: "a' < length (h[a := n])" and cb: "(c, b) \<in> set (children (h[a := n] ! a'))"
  show "b < length (h[a := n])"
  proof (cases "a' = a")
    case True
    then show ?thesis using assms(2,3) cb by simp
  next
    case False
    then show ?thesis using closed_set [OF assms(1), of a'] a cb by simp
  qed
qed

lemma Put_loop_spec:
  assumes "closed h0" "agree h0 h" "closed h" "length h0 \<le> nn" "nn < length h"
    "in_store h0 cur"
    "children (h ! nn) = (case cur of None \<Rightarrow> [] | Some a \<Rightarrow> children (h0 ! a))"
    "node_value (h ! nn) =
       (if key = [] then Some v else (case cur of None \<Rightarrow> None | Some a \<Rightarrow> node_value (h0 ! a)))"
  shows "agree h0 (Put_loop h cur nn v key) \<and> closed (Put_loop h cur nn v key) \<and>
         (\<forall>ks. val (Put_loop h cur nn v key) nn ks =
                 (if ks = key then Some v else lookup h0 cur ks))"
  using assms(2-)
proof (induction key arbitrary: h cur nn)
  case Nil
  have "val h nn ks = (if ks = [] then Some v else lookup h0 cur ks)" for ks
  proof (cases ks)
    case Nil
    then show ?thesis using Nil.prems by simp
  next
    case (Cons c ks')
    show ?thesis
    proof (cases cur)
      case None
      then show ?thesis using Nil.prems Cons by (simp add: val_Cons lookup_def)
    next
      case (Some a)
      then have a: "a < length h0" using Nil.prems by (simp add: in_store_def)
      have ch: "children (h ! nn) = children (h0 ! a)" using Nil.prems Some by simp
      show ?thesis
      proof (cases "map_of (children (h0 ! a)) c")
        case None
        then show ?thesis using Some Cons ch by (simp add: val_Cons lookup_def)
      next
        case (Some b)
        then have "b < length h0" using closedD [OF assms(1) a] by blast
        then have "val h b ks' = val h0 b ks'" using val_agree [OF assms(1) Nil.prems(1)] by blast
        then show ?thesis using Some \<open>cur = Some a\<close> Cons ch by (simp add: val_Cons lookup_def)
      qed
    qed
  qed
  then show ?case using Nil.prems by simp
next
  case (Cons c rest)
  define cur' where "cur' = (case cur of Some a \<Rightarrow> map_of (children (h ! a)) c | None \<Rightarrow> None)"
  define node where "node = (if rest \<noteq> [] then
                    (case cur' of
                       Some a \<Rightarrow> h ! a
                     | None \<Rightarrow> \<lparr>children = [], node_value = None\<rparr>)
                  else
                    (case cur' of
                       Some a \<Rightarrow> \<lparr>children = children (h ! a), node_value = Some v\<rparr>
                     | None \<Rightarrow> \<lparr>children = [], node_value = Some v\<rparr>))"
  define h2 where "h2 = (h @ [node])[nn := ((h @ [node]) ! nn)
                      \<lparr>children := AList.update c (length h) (children ((h @ [node]) ! nn))\<rparr>]"
  define g where "g = Put_loop h2 cur' (length h) v rest"
  have step: "Put_loop h cur nn v (c # rest) = g"
    by (simp add: Let_def cur'_def node_def h2_def g_def)
  note p = Cons.prems
  have l0: "length h0 \<le> length h" using p(1) by (rule agree_length)
  have len2: "length h2 = Suc (length h)" by (simp add: h2_def)
  have cur'_old: "cur' = (case cur of Some a \<Rightarrow> map_of (children (h0 ! a)) c | None \<Rightarrow> None)"
    using p(5) agreeD [OF p(1)] by (auto simp: cur'_def in_store_def split: option.splits)
  have cur'_in: "in_store h0 cur'"
    using p(5) closedD [OF assms(1)]
    by (auto simp: cur'_old in_store_def split: option.splits)
  have node_ch: "children node = (case cur' of None \<Rightarrow> [] | Some a \<Rightarrow> children (h0 ! a))"
    using cur'_in agreeD [OF p(1)] by (auto simp: node_def in_store_def split: option.splits)
  have node_val: "node_value node =
       (if rest = [] then Some v else (case cur' of None \<Rightarrow> None | Some a \<Rightarrow> node_value (h0 ! a)))"
    using cur'_in agreeD [OF p(1)] by (auto simp: node_def in_store_def split: option.splits)
  have node_closed: "\<And>c b. (c, b) \<in> set (children node) \<Longrightarrow> b < length h"
    using cur'_in closed_set [OF assms(1)] l0
    by (fastforce simp: node_ch in_store_def split: option.splits)
  have c1: "closed (h @ [node])" using p(2) node_closed by (rule closed_append)
  have atnn: "h2 ! nn = (h ! nn)\<lparr>children := AList.update c (length h) (children (h ! nn))\<rparr>"
    using p(4) by (simp add: h2_def nth_append)
  have c2: "closed h2"
    unfolding h2_def
  proof (rule closed_update [OF c1])
    show "nn < length (h @ [node])" using p(4) by simp
    fix c' b assume "(c', b) \<in> set (children (((h @ [node]) ! nn)
            \<lparr>children := AList.update c (length h) (children ((h @ [node]) ! nn))\<rparr>))"
    then have "(c', b) \<in> set (AList.update c (length h) (children (h ! nn)))"
      using p(4) by (simp add: nth_append)
    then have "(c', b) \<in> set (children (h ! nn)) \<or> b = length h" by (rule set_update_subset)
    then show "b < length (h @ [node])" using closed_set [OF p(2) p(4)] by fastforce
  qed
  have a2: "agree h0 h2"
  proof (rule agreeI)
    show "length h0 \<le> length h2" using l0 len2 by simp
    fix a assume "a < length h0"
    then show "h2 ! a = h0 ! a" using p(3) l0 agreeD [OF p(1)] by (simp add: h2_def nth_append)
  qed
  have at_new: "h2 ! length h = node" using p(4) by (simp add: h2_def)
  have IH: "agree h0 g \<and> closed g \<and>
         (\<forall>ks. val g (length h) ks = (if ks = rest then Some v else lookup h0 cur' ks))"
    unfolding g_def
  proof (rule Cons.IH [OF a2 c2])
    show "length h0 \<le> length h" by (rule l0)
    show "length h < length h2" by (simp add: len2)
    show "in_store h0 cur'" by (rule cur'_in)
    show "children (h2 ! length h) = (case cur' of None \<Rightarrow> [] | Some a \<Rightarrow> children (h0 ! a))"
      by (simp add: at_new node_ch)
    show "node_value (h2 ! length h) =
       (if rest = [] then Some v else (case cur' of None \<Rightarrow> None | Some a \<Rightarrow> node_value (h0 ! a)))"
      by (simp add: at_new node_val)
  qed
  have fr: "g ! nn = h2 ! nn"
    using Put_loop_frame [of "length h" h2 cur' v rest] p(4) len2 by (simp add: g_def)
  have gnn_ch: "children (g ! nn) = AList.update c (length h) (children (h ! nn))"
    and gnn_val: "node_value (g ! nn) = node_value (h ! nn)"
    by (simp_all add: fr atnn)
  have "val g nn ks = (if ks = c # rest then Some v else lookup h0 cur ks)" for ks
  proof (cases ks)
    case Nil
    then show ?thesis using gnn_val p(7) by (simp add: lookup_def split: option.splits)
  next
    case (Cons c' ks')
    show ?thesis
    proof (cases "c' = c")
      case True
      have "val g nn ks = val g (length h) ks'"
        using Cons True gnn_ch by (simp add: val_Cons update_conv')
      also have "\<dots> = (if ks' = rest then Some v else lookup h0 cur' ks')" using IH by simp
      also have "lookup h0 cur' ks' = lookup h0 cur (c # ks')"
        by (simp add: lookup_def cur'_old val_Cons split: option.splits)
      finally show ?thesis using Cons True by simp
    next
      case False
      have m: "map_of (children (g ! nn)) c' =
                 (case cur of None \<Rightarrow> None | Some a \<Rightarrow> map_of (children (h0 ! a)) c')"
        using False gnn_ch p(6) by (simp add: update_conv' split: option.splits)
      show ?thesis
      proof (cases cur)
        case None
        then show ?thesis using m Cons False by (simp add: val_Cons lookup_def)
      next
        case (Some a)
        then have a: "a < length h0" using p(5) by (simp add: in_store_def)
        show ?thesis
        proof (cases "map_of (children (h0 ! a)) c'")
          case None
          then show ?thesis using m Some Cons False by (simp add: val_Cons lookup_def)
        next
          case (Some b)
          then have "b < length h0" using closedD [OF assms(1) a] by blast
          then have "val g b ks' = val h0 b ks'"
            using val_agree [OF assms(1)] IH by blast
          then show ?thesis using m Some \<open>cur = Some a\<close> Cons False
            by (simp add: val_Cons lookup_def)
        qed
      qed
    qed
  qed
  then show ?case using IH step by simp
qed

lemma Trie_Put_spec:
  assumes "closed h" "in_store h root" "Trie_Put h root key ty v = (r', h')"
  shows "agree h h' \<and> closed h' \<and> in_store h' r' \<and>
         (\<forall>ks. lookup h' r' ks = (if ks = key then Some (ty, v) else lookup h root ks))"
proof -
  define node :: "('a, 'b) TrieNode" where
    "node = (if key = [] then
               (case root of Some a \<Rightarrow> \<lparr>children = children (h ! a), node_value = Some (ty, v)\<rparr>
                | None \<Rightarrow> \<lparr>children = [], node_value = Some (ty, v)\<rparr>)
             else (case root of Some a \<Rightarrow> h ! a | None \<Rightarrow> \<lparr>children = [], node_value = None\<rparr>))"
  have r': "r' = Some (length h)" and h': "h' = Put_loop (h @ [node]) root (length h) (ty, v) key"
    using assms(3) by (auto simp: Trie_Put_def node_def Let_def split: if_splits option.splits)
  have ch: "children node = (case root of None \<Rightarrow> [] | Some a \<Rightarrow> children (h ! a))"
    by (simp add: node_def split: option.splits)
  have nv: "node_value node =
       (if key = [] then Some (ty, v) else (case root of None \<Rightarrow> None | Some a \<Rightarrow> node_value (h ! a)))"
    by (simp add: node_def split: option.splits)
  have ag: "agree h (h @ [node])" by (simp add: agree_def)
  have cl: "closed (h @ [node])"
    using assms(1)
  proof (rule closed_append)
    fix c b assume "(c, b) \<in> set (children node)"
    then show "b < length h"
      using assms(2) closed_set [OF assms(1)] by (auto simp: ch in_store_def split: option.splits)
  qed
  have "agree h h' \<and> closed h' \<and>
         (\<forall>ks. val h' (length h) ks = (if ks = key then Some (ty, v) else lookup h root ks))"
    unfolding h'
    by (rule Put_loop_spec [OF assms(1) ag cl _ _ assms(2)]) (simp_all add: ch nv)
  moreover from this have "length h < length h'"
    using Put_loop_frame [of "length h" "h @ [node]" root "(ty, v)" key] by (simp add: h')
  ultimately show ?thesis by (simp add: r' lookup_def in_store_def)
qed

lemma copied_step:
  assumes cl: "closed h0" and cp: "copied h0 key os g i" and i: "i < length key"
    and e: "map_of (children (h0 ! (os ! i))) (key ! i) = Some b"
  defines "node \<equiv> (if Suc i \<noteq> length key then h0 ! b
                    else \<lparr>children = children (h0 ! b), node_value = None\<rparr>)"
  defines "h2 \<equiv> (g @ [node])[length h0 + i := ((g @ [node]) ! (length h0 + i))
             \<lparr>children := AList.update (key ! i) (length g)
                            (children ((g @ [node]) ! (length h0 + i)))\<rparr>]"
  shows "copied h0 key (os @ [b]) h2 (Suc i)"
proof -
  let ?N = "length h0"
  from cp have ag: "agree h0 g" and len: "length g = ?N + i + 1" and po: "path_ok h0 key os i"
    and cg: "closed g"
    and cps: "\<And>j. j < i \<Longrightarrow> copy_of h0 key os g j"
    and ch: "children (g ! (?N + i)) = children (h0 ! (os ! i))"
    and nv: "node_value (g ! (?N + i)) = node_value (h0 ! (os ! i))"
    using i by (auto simp: copied_def)
  from po have los: "length os = i + 1" and bnd: "\<And>j. j \<le> i \<Longrightarrow> os ! j < ?N"
    and edges: "\<And>j. j < i \<Longrightarrow> map_of (children (h0 ! (os ! j))) (key ! j) = Some (os ! (j + 1))"
    by (auto simp: path_ok_def)
  have b: "b < ?N" using closedD [OF cl bnd [of i] e] by simp
  have len2: "length h2 = ?N + Suc i + 1" by (simp add: h2_def len)
  have ag2: "agree h0 h2"
  proof (rule agreeI)
    show "?N \<le> length h2" by (simp add: len2)
    fix a assume "a < ?N"
    then show "h2 ! a = h0 ! a" using agreeD [OF ag] len by (simp add: h2_def nth_append)
  qed
  have po2: "path_ok h0 key (os @ [b]) (Suc i)"
    unfolding path_ok_def
  proof (intro conjI allI impI)
    show "length (os @ [b]) = Suc i + 1" by (simp add: los)
    show "Suc i \<le> length key" using i by simp
  next
    fix j assume "j \<le> Suc i"
    then show "(os @ [b]) ! j < ?N" using bnd [of j] b los by (cases "j = Suc i") (simp_all add: nth_append)
  next
    fix j assume j: "j < Suc i"
    show "map_of (children (h0 ! ((os @ [b]) ! j))) (key ! j) = Some ((os @ [b]) ! (j + 1))"
    proof (cases "j = i")
      case True
      then show ?thesis using e los by (simp add: nth_append)
    next
      case False
      then have "j < i" using j by simp
      then show ?thesis using edges [of j] los by (simp add: nth_append)
    qed
  qed
  have old: "\<And>j. j < i \<Longrightarrow> h2 ! (?N + j) = g ! (?N + j)"
    by (simp add: h2_def nth_append len)
  have ati: "h2 ! (?N + i) =
     (g ! (?N + i))\<lparr>children := AList.update (key ! i) (length g) (children (g ! (?N + i)))\<rparr>"
    by (simp add: h2_def nth_append len)
  have atn: "h2 ! (?N + Suc i) = node" by (simp add: h2_def len nth_append)
  have cps2: "copy_of h0 key (os @ [b]) h2 j" if j: "j < Suc i" for j
  proof (cases "j = i")
    case True
    then show ?thesis using ch nv los len by (simp add: copy_of_def ati nth_append)
  next
    case False
    then have "j < i" using j by simp
    then show ?thesis using cps [of j] old [of j] los by (simp add: copy_of_def nth_append)
  qed
  have chn: "children node = children (h0 ! b)" by (simp add: node_def)
  have nvn: "node_value node = (if Suc i = length key then None else node_value (h0 ! b))"
    by (simp add: node_def)
  have c1: "closed (g @ [node])"
    using cg
  proof (rule closed_append)
    fix c' b' assume "(c', b') \<in> set (children node)"
    then have "b' < ?N" using closed_set [OF cl b] by (simp add: chn)
    then show "b' < length g" using len by simp
  qed
  have c2: "closed h2"
    unfolding h2_def
  proof (rule closed_update [OF c1])
    show "?N + i < length (g @ [node])" by (simp add: len)
    fix c' b' assume "(c', b') \<in> set (children (((g @ [node]) ! (?N + i))
            \<lparr>children := AList.update (key ! i) (length g)
                            (children ((g @ [node]) ! (?N + i)))\<rparr>))"
    then have "(c', b') \<in> set (AList.update (key ! i) (length g) (children (g ! (?N + i))))"
      by (simp add: nth_append len)
    then have "(c', b') \<in> set (children (g ! (?N + i))) \<or> b' = length g"
      by (rule set_update_subset)
    then show "b' < length (g @ [node])"
      using closed_set [OF cg, of "?N + i"] len by fastforce
  qed
  show ?thesis
    unfolding copied_def using ag2 c2 len2 po2 cps2 atn los chn nvn by (simp add: nth_append)
qed

lemma Remove_copy_spec:
  assumes "closed h0" "copied h0 key os g i" "rest = drop i key"
  shows "case Remove_copy g (os ! i) (length h0 + i) [length h0 ..< length h0 + i + 1] rest of
           (g', st') \<Rightarrow>
             (st' = [length h0 ..< length h0 + length key + 1] \<and>
              (\<exists>os'. copied h0 key os' g' (length key) \<and> os' ! 0 = os ! 0)) \<or>
             (length st' - 1 \<noteq> length key \<and> agree h0 g' \<and> closed g' \<and>
              Get_walk h0 (os ! i) rest = None)"
  using assms(2,3)
proof (induction rest arbitrary: g os i)
  case Nil
  then have "i = length key" by (auto simp: copied_def path_ok_def)
  then show ?case using Nil.prems(1) by auto
next
  case (Cons c rest)
  let ?N = "length h0"
  have i: "i < length key"
  proof (rule ccontr)
    assume "\<not> i < length key"
    then have "drop i key = []" by simp
    then show False using Cons.prems(2) by simp
  qed
  have "key ! i # drop (Suc i) key = c # rest"
    using Cons_nth_drop_Suc [OF i] Cons.prems(2) by simp
  then have c: "key ! i = c" and rest: "rest = drop (Suc i) key" by simp_all
  from Cons.prems(1) have ag: "agree h0 g" and len: "length g = ?N + i + 1"
    and po: "path_ok h0 key os i" and cg: "closed g"
    by (auto simp: copied_def)
  have cur: "os ! i < ?N" and los: "length os = i + 1" using po by (auto simp: path_ok_def)
  have gcur: "g ! (os ! i) = h0 ! (os ! i)" using ag cur by (rule agreeD)
  show ?case
  proof (cases "map_of (children (h0 ! (os ! i))) c")
    case None
    then show ?thesis using gcur ag cg i by simp
  next
    case (Some b)
    have b: "b < ?N" using closedD [OF assms(1) cur Some] .
    have gb: "g ! b = h0 ! b" using ag b by (rule agreeD)
    define node where "node = (if Suc i \<noteq> length key then h0 ! b
                    else \<lparr>children = children (h0 ! b), node_value = None\<rparr>)"
    define h2 where "h2 = (g @ [node])[?N + i := ((g @ [node]) ! (?N + i))
             \<lparr>children := AList.update (key ! i) (length g)
                            (children ((g @ [node]) ! (?N + i)))\<rparr>]"
    have cp2: "copied h0 key (os @ [b]) h2 (Suc i)"
      unfolding h2_def node_def
      by (rule copied_step [OF assms(1) Cons.prems(1) i]) (simp add: c Some)
    have restnil: "rest \<noteq> [] \<longleftrightarrow> Suc i \<noteq> length key" using rest i by auto
    have step: "Remove_copy g (os ! i) (?N + i) [?N ..< ?N + i + 1] (c # rest) =
                Remove_copy h2 b (?N + Suc i) [?N ..< ?N + Suc i + 1] rest"
      using Some gcur gb restnil by (simp add: Let_def h2_def node_def len c)
    have nth: "(os @ [b]) ! Suc i = b" "(os @ [b]) ! 0 = os ! 0" "(os @ [b]) ! i = os ! i"
      using los by (simp_all add: nth_append)
    from Cons.IH [OF cp2 rest] show ?thesis
      unfolding step nth using Some by (auto split: prod.splits)
  qed
qed

lemma val_empty:
  "children (g ! a) = [] \<Longrightarrow> node_value (g ! a) = None \<Longrightarrow> val g a ks = None"
  by (cases ks) (simp_all add: val_Cons)

lemma pruned_down:
  assumes cl: "closed h0" and pr: "pruned h0 key os g (Suc i)"
  shows "pruned h0 key os g i"
proof -
  let ?N = "length h0"
  from pr have ag: "agree h0 g" and po: "path_ok h0 key os (length key)"
    and i: "i < length key"
    and cps: "\<And>j. j < Suc i \<Longrightarrow> copy_of h0 key os g j"
    and S: "\<And>ks. val g (?N + Suc i) ks = (if ks = drop (Suc i) key then None else val h0 (os ! Suc i) ks)"
    by (auto simp: pruned_def)
  from po have bnd: "os ! i < ?N"
    and edge: "map_of (children (h0 ! (os ! i))) (key ! i) = Some (os ! Suc i)"
    using i by (auto simp: path_ok_def)
  from cps [of i] have ch: "children (g ! (?N + i)) =
       AList.update (key ! i) (?N + i + 1) (children (h0 ! (os ! i)))"
    and nv: "node_value (g ! (?N + i)) = node_value (h0 ! (os ! i))"
    by (auto simp: copy_of_def)
  have dr: "drop i key = key ! i # drop (Suc i) key" using i by (simp add: Cons_nth_drop_Suc)
  have "val g (?N + i) ks = (if ks = drop i key then None else val h0 (os ! i) ks)" for ks
  proof (cases ks)
    case Nil
    then show ?thesis using nv dr by simp
  next
    case (Cons c ks')
    show ?thesis
    proof (cases "c = key ! i")
      case True
      then show ?thesis using Cons ch S [of ks'] edge dr by (simp add: val_Cons update_conv')
    next
      case False
      show ?thesis
      proof (cases "map_of (children (h0 ! (os ! i))) c")
        case None
        then show ?thesis using Cons False ch dr by (simp add: val_Cons update_conv')
      next
        case (Some b)
        then have "b < ?N" using closedD [OF cl bnd] by blast
        then have "val g b ks' = val h0 b ks'" using val_agree [OF cl ag] by blast
        then show ?thesis using Some Cons False ch dr by (simp add: val_Cons update_conv')
      qed
    qed
  qed
  then show ?thesis using pr by (simp add: pruned_def)
qed

lemma pruned_zero:
  assumes "closed h0" "pruned h0 key os g i"
  shows "pruned h0 key os g 0"
  using assms(2) by (induction i) (auto intro: pruned_down [OF assms(1)])

lemma Remove_prune_spec:
  assumes cl: "closed h0" and pr: "pruned h0 key os g i"
  shows "\<exists>g'. Remove_prune g [length h0 ..< length h0 + length key + 1] key i = Inr g' \<and>
              pruned h0 key os g' 0"
  using pr
proof (induction i arbitrary: g)
  case 0
  then show ?case by simp
next
  case (Suc i)
  let ?N = "length h0"
  define st where "st = [?N ..< ?N + length key + 1]"
  note pr = Suc.prems
  from pr have ag: "agree h0 g" and po: "path_ok h0 key os (length key)"
    and len: "length g = ?N + length key + 1" and cg: "closed g"
    and i: "i < length key"
    and cps: "\<And>j. j < Suc i \<Longrightarrow> copy_of h0 key os g j"
    and S: "\<And>ks. val g (?N + Suc i) ks = (if ks = drop (Suc i) key then None else val h0 (os ! Suc i) ks)"
    by (auto simp: pruned_def)
  from po have bnd: "os ! i < ?N"
    and edge: "map_of (children (h0 ! (os ! i))) (key ! i) = Some (os ! Suc i)"
    using i by (auto simp: path_ok_def)
  from cps [of i] have ch: "children (g ! (?N + i)) =
       AList.update (key ! i) (?N + i + 1) (children (h0 ! (os ! i)))"
    and nv: "node_value (g ! (?N + i)) = node_value (h0 ! (os ! i))"
    by (auto simp: copy_of_def)
  have sti: "st ! i = ?N + i" using i by (simp add: st_def nth_upt del: upt_Suc)
  have m: "map_of (children (g ! (st ! i))) (key ! i) = Some (?N + Suc i)"
    by (simp add: sti ch update_conv')
  have dr: "drop i key = key ! i # drop (Suc i) key" using i by (simp add: Cons_nth_drop_Suc)
  show ?case
  proof (cases "children (g ! (?N + Suc i)) = [] \<and> node_value (g ! (?N + Suc i)) = None")
    case False
    then have "Remove_prune g st key (Suc i) = Inr g"
      using m by auto
    then show ?thesis using pruned_zero [OF cl pr] unfolding st_def by blast
  next
    case True
    define g' where "g' = g[?N + i := (g ! (?N + i))
                         \<lparr>children := AList.delete (key ! i) (children (g ! (?N + i)))\<rparr>]"
    have step: "Remove_prune g st key (Suc i) = Remove_prune g' st key i"
      using m True by (simp add: g'_def sti)
    have dead: "\<And>ks. val g (?N + Suc i) ks = None" using True by (simp add: val_empty)
    have ag': "agree h0 g'"
    proof (rule agreeI)
      show "?N \<le> length g'" by (simp add: g'_def len)
      fix a assume "a < ?N"
      then show "g' ! a = h0 ! a" using agreeD [OF ag] by (simp add: g'_def)
    qed
    have ch': "children (g' ! (?N + i)) = AList.delete (key ! i) (children (h0 ! (os ! i)))"
      using len i by (simp add: g'_def ch delete_update_same)
    have nv': "node_value (g' ! (?N + i)) = node_value (h0 ! (os ! i))"
      using len i by (simp add: g'_def nv)
    have S': "val g' (?N + i) ks = (if ks = drop i key then None else val h0 (os ! i) ks)" for ks
    proof (cases ks)
      case Nil
      then show ?thesis using nv' dr by simp
    next
      case (Cons c ks')
      show ?thesis
      proof (cases "c = key ! i")
        case True
        have "val h0 (os ! Suc i) ks' = None" if "ks' \<noteq> drop (Suc i) key"
          using S [of ks'] dead [of ks'] that by simp
        then show ?thesis using Cons True ch' edge dr by (simp add: val_Cons delete_conv')
      next
        case False
        show ?thesis
        proof (cases "map_of (children (h0 ! (os ! i))) c")
          case None
          then show ?thesis using Cons False ch' dr by (simp add: val_Cons delete_conv')
        next
          case (Some b)
          then have "b < ?N" using closedD [OF cl bnd] by blast
          then have "val g' b ks' = val h0 b ks'" using val_agree [OF cl ag'] by blast
          then show ?thesis using Some Cons False ch' dr by (simp add: val_Cons delete_conv')
        qed
      qed
    qed
    have cps': "copy_of h0 key os g' j" if "j < i" for j
      using cps [of j] that by (simp add: copy_of_def g'_def)
    have cg': "closed g'"
      unfolding g'_def
    proof (rule closed_update [OF cg])
      show "?N + i < length g" using len i by simp
      fix c' b' assume "(c', b') \<in> set (children ((g ! (?N + i))
              \<lparr>children := AList.delete (key ! i) (children (g ! (?N + i)))\<rparr>))"
      then have "(c', b') \<in> set (AList.delete (key ! i) (children (g ! (?N + i))))"
        by simp
      then have "(c', b') \<in> set (children (g ! (?N + i)))"
        by (rule set_delete_subset)
      then show "b' < length g" using closed_set [OF cg, of "?N + i"] len i by simp
    qed
    have "pruned h0 key os g' i"
      unfolding pruned_def using ag' cg' po i cps' S' len by (simp add: g'_def)
    from Suc.IH [OF this] show ?thesis using step unfolding st_def by simp
  qed
qed

lemma copied_pruned:
  assumes cl: "closed h0" and cp: "copied h0 key os g (length key)"
  shows "pruned h0 key os g (length key)"
proof -
  let ?N = "length h0" and ?m = "length key"
  from cp have ag: "agree h0 g" and len: "length g = ?N + ?m + 1"
    and po: "path_ok h0 key os ?m" and cg: "closed g"
    and cps: "\<And>j. j < ?m \<Longrightarrow> copy_of h0 key os g j"
    and ch: "children (g ! (?N + ?m)) = children (h0 ! (os ! ?m))"
    and nv: "node_value (g ! (?N + ?m)) = None"
    by (auto simp: copied_def)
  from po have bnd: "os ! ?m < ?N" by (auto simp: path_ok_def)
  have "val g (?N + ?m) ks = (if ks = drop ?m key then None else val h0 (os ! ?m) ks)" for ks
  proof (cases ks)
    case Nil
    then show ?thesis using nv by simp
  next
    case (Cons c ks')
    show ?thesis
    proof (cases "map_of (children (h0 ! (os ! ?m))) c")
      case None
      then show ?thesis using Cons ch by (simp add: val_Cons)
    next
      case (Some b)
      then have "b < ?N" using closedD [OF cl bnd] by blast
      then have "val g b ks' = val h0 b ks'" using val_agree [OF cl ag] by blast
      then show ?thesis using Some Cons ch by (simp add: val_Cons)
    qed
  qed
  then show ?thesis unfolding pruned_def using ag cg len po cps by simp
qed

lemma path_ok_walk:
  assumes "path_ok h0 key os (length key)" and "i \<le> length key"
  shows "Get_walk h0 (os ! i) (drop i key) = Some (os ! length key)"
  using assms(2)
proof (induction "length key - i" arbitrary: i)
  case 0
  then show ?case by simp
next
  case (Suc d)
  then have i: "i < length key" by simp
  have e: "map_of (children (h0 ! (os ! i))) (key ! i) = Some (os ! Suc i)"
    using assms(1) i by (simp add: path_ok_def)
  have "Get_walk h0 (os ! Suc i) (drop (Suc i) key) = Some (os ! length key)"
    using Suc.hyps(1) [of "Suc i"] Suc.hyps(2) i by simp
  then show ?case using e Cons_nth_drop_Suc [OF i, symmetric] by simp
qed

lemma Trie_Remove_spec:
  assumes cl: "closed h" and ins: "in_store h root"
  shows "\<exists>r' h'. Trie_Remove h root key = Inr (r', h') \<and> agree h h' \<and> closed h' \<and>
           in_store h' r' \<and>
           (\<forall>a. root = Some a \<longrightarrow> (r' = root \<longleftrightarrow> Get_walk h a key = None)) \<and>
           (\<forall>ks. lookup h' r' ks = (if ks = key then None else lookup h root ks))"
proof (cases root)
  case None
  then show ?thesis using cl by (simp add: Trie_Remove_def lookup_def agree_refl in_store_def)
next
  case (Some a)
  then have a: "a < length h" using ins by (simp add: in_store_def)
  let ?N = "length h"
  show ?thesis
  proof (cases "key = []")
    case True
    let ?h' = "h @ [\<lparr>children = children (h ! a), node_value = None\<rparr>]"
    have ag: "agree h ?h'" by (simp add: agree_def)
    have "val ?h' ?N ks = (if ks = [] then None else val h a ks)" for ks
    proof (cases ks)
      case Nil
      then show ?thesis by simp
    next
      case (Cons c ks')
      show ?thesis
      proof (cases "map_of (children (h ! a)) c")
        case None
        then show ?thesis using Cons by (simp add: val_Cons)
      next
        case (Some b)
        then have "b < ?N" using closedD [OF cl a] by blast
        then have "val ?h' b ks' = val h b ks'" using val_agree [OF cl ag] by blast
        then show ?thesis using Some Cons by (simp add: val_Cons)
      qed
    qed
    moreover have "closed ?h'"
      using cl
    proof (rule closed_append)
      fix c b assume "(c, b) \<in> set (children \<lparr>children = children (h ! a), node_value = None\<rparr>)"
      then show "b < length h" using closed_set [OF cl a] by simp
    qed
    ultimately show ?thesis using True Some ag a
      by (simp add: Trie_Remove_def lookup_def in_store_def)
  next
    case False
    let ?g = "h @ [h ! a]"
    have "closed ?g"
      using cl
    proof (rule closed_append)
      fix c b assume "(c, b) \<in> set (children (h ! a))"
      then show "b < length h" using closed_set [OF cl a] by simp
    qed
    then have cp0: "copied h key [a] ?g 0"
      using False a by (simp add: copied_def agree_def path_ok_def)
    obtain g' st' where rc: "Remove_copy ?g a ?N [?N] key = (g', st')" by fastforce
    from Remove_copy_spec [OF cl cp0, of key] rc
    have alt: "(st' = [?N ..< ?N + length key + 1] \<and>
              (\<exists>os'. copied h key os' g' (length key) \<and> os' ! 0 = a)) \<or>
             (length st' - 1 \<noteq> length key \<and> agree h g' \<and> closed g' \<and>
              Get_walk h a key = None)"
      by simp
    show ?thesis
    proof (cases "length st' - 1 = length key")
      case neq: False
      with alt have ag: "agree h g'" and miss: "Get_walk h a key = None" and cg: "closed g'"
        by auto
      have ins': "in_store g' root" using a Some agree_length [OF ag] by (simp add: in_store_def)
      have res: "Trie_Remove h root key = Inr (root, g')"
        using False Some rc neq by (simp add: Trie_Remove_def Let_def)
      have "lookup g' root ks = lookup h root ks" for ks
        by (rule lookup_agree [OF cl ag ins])
      moreover have "lookup h root key = None" using miss Some by (simp add: lookup_def val_def)
      ultimately show ?thesis using res ag cg ins' miss Some by auto
    next
      case eq: True
      with alt obtain os' where st': "st' = [?N ..< ?N + length key + 1]"
        and cp: "copied h key os' g' (length key)" and os0: "os' ! 0 = a"
        by auto
      from Remove_prune_spec [OF cl copied_pruned [OF cl cp]] obtain h3
        where rp: "Remove_prune g' st' key (length key) = Inr h3"
          and pr: "pruned h key os' h3 0"
        unfolding st' by blast
      from pr have ag: "agree h h3" and c3: "closed h3" and l3: "?N < length h3"
        and S: "\<And>ks. val h3 ?N ks = (if ks = key then None else val h a ks)"
        by (auto simp: pruned_def os0)
      from cp have "path_ok h key os' (length key)" by (simp add: copied_def)
      from path_ok_walk [OF this, of 0] have walk: "Get_walk h a key = Some (os' ! length key)"
        by (simp add: os0)
      show ?thesis
      proof (cases "children (h3 ! ?N) = [] \<and> node_value (h3 ! ?N) = None")
        case True
        then have res: "Trie_Remove h root key = Inr (None, h3)"
          using False Some rc eq rp by (simp add: Trie_Remove_def Let_def)
        have "val h3 ?N ks = None" for ks using True by (simp add: val_empty)
        then have "val h a ks = None" if "ks \<noteq> key" for ks using S [of ks] that by simp
        then show ?thesis using res ag c3 Some walk by (simp add: lookup_def in_store_def)
      next
        case nonempty: False
        then have res: "Trie_Remove h root key = Inr (Some ?N, h3)"
          using False Some rc eq rp by (auto simp: Trie_Remove_def Let_def)
        then show ?thesis using ag c3 l3 S Some walk a by (simp add: lookup_def in_store_def)
      qed
    qed
  qed
qed

text \<open>
  C7. For every trie \<open>root\<close> in a closed store, key and value: in the store after
  \<open>Put(key, v)\<close> the new trie maps \<open>key\<close> to \<open>v\<close>; \<open>Remove(key)\<close> on the new trie returns a trie
  in which \<open>Get(key)\<close> is none; and \<open>Get\<close> on the old trie returns for every key and type
  what it returned before the \<open>Put\<close>. The store after the \<open>Put\<close> is closed again and holds
  the new trie.
\<close>

theorem Trie_put_get_remove:
  assumes "closed h" and "in_store h root" and "Trie_Put h root key ty v = (r1, h1)"
  shows "Trie_Get h1 r1 ty key = Some v \<and>
         (\<exists>r2 h2. Trie_Remove h1 r1 key = Inr (r2, h2) \<and> Trie_Get h2 r2 ty key = None) \<and>
         (\<forall>ty' k2. Trie_Get h1 root ty' k2 = Trie_Get h root ty' k2) \<and>
         closed h1 \<and> in_store h1 r1"
proof -
  from Trie_Put_spec [OF assms] have ag: "agree h h1" and cl: "closed h1" and ins: "in_store h1 r1"
    and lk: "\<And>ks. lookup h1 r1 ks = (if ks = key then Some (ty, v) else lookup h root ks)"
    by auto
  have 1: "Trie_Get h1 r1 ty key = Some v" by (simp add: Trie_Get_lookup lk)
  from Trie_Remove_spec [OF cl ins, of key] obtain r2 h2
    where rm: "Trie_Remove h1 r1 key = Inr (r2, h2)" and "lookup h2 r2 key = None"
    by auto
  then have 2: "\<exists>r2 h2. Trie_Remove h1 r1 key = Inr (r2, h2) \<and> Trie_Get h2 r2 ty key = None"
    by (simp add: Trie_Get_lookup)
  have 3: "Trie_Get h1 root ty' k2 = Trie_Get h root ty' k2" for ty' k2
    by (simp add: Trie_Get_lookup lookup_agree [OF assms(1) ag assms(2)])
  from 1 2 3 cl ins show ?thesis by blast
qed

theorem Trie_put_get_remove_witness:
  "closed store_ab \<and> in_store store_ab (Some 0) \<and>
   Trie_Put store_ab (Some 0) ''ac'' T_uint32 (2 :: nat) = (Some 3, store_ab_ac) \<and>
   Trie_Get store_ab_ac (Some 3) T_uint32 ''ac'' = Some 2 \<and>
   Trie_Get store_ab_ac (Some 3) T_uint32 ''ab'' = Some 1 \<and>
   Trie_Remove store_ab_ac (Some 3) ''ac'' = Inr (Some 6, store_ab_ac_removed) \<and>
   Trie_Get store_ab_ac_removed (Some 6) T_uint32 ''ac'' = None \<and>
   Trie_Get store_ab_ac_removed (Some 6) T_uint32 ''ab'' = Some 1 \<and>
   Trie_Get store_ab (Some 0) T_uint32 ''ab'' = Some 1 \<and>
   Trie_Get store_ab (Some 0) T_uint32 ''ac'' = None \<and>
   Trie_Get store_ab_ac (Some 0) T_uint32 ''ab'' = Some 1 \<and>
   Trie_Get store_ab_ac (Some 0) T_uint32 ''ac'' = None"
proof -
  have c: "closed store_ab" by (simp add: closed_def store_ab_def)
  have i: "in_store store_ab (Some 0)" by (simp add: in_store_def store_ab_def)
  have p: "Trie_Put store_ab (Some 0) ''ac'' T_uint32 (2 :: nat) = (Some 3, store_ab_ac)"
    by (simp add: Trie_Put_def store_ab_ac_def store_ab_def Let_def)
  have r: "Trie_Remove store_ab_ac (Some 3) ''ac'' = Inr (Some 6, store_ab_ac_removed)"
    by (simp add: Trie_Remove_def store_ab_ac_removed_def store_ab_ac_def store_ab_def Let_def)
  have old: "Trie_Get store_ab (Some 0) T_uint32 ''ab'' = Some 1"
    "Trie_Get store_ab (Some 0) T_uint32 ''ac'' = None"
    by (simp_all add: Trie_Get_def store_ab_def)
  have new: "Trie_Get store_ab_ac (Some 3) T_uint32 ''ab'' = Some 1"
    by (simp add: Trie_Get_def store_ab_ac_def store_ab_def)
  have rem: "Trie_Get store_ab_ac_removed (Some 6) T_uint32 ''ab'' = Some 1"
    by (simp add: Trie_Get_def store_ab_ac_removed_def store_ab_ac_def store_ab_def)
  from Trie_put_get_remove [OF c i p]
  have g: "Trie_Get store_ab_ac (Some 3) T_uint32 ''ac'' = Some 2"
    and rg: "\<exists>r2 h2. Trie_Remove store_ab_ac (Some 3) ''ac'' = Inr (r2, h2) \<and>
               Trie_Get h2 r2 T_uint32 ''ac'' = None"
    and pers: "\<And>ty' k2. Trie_Get store_ab_ac (Some 0) ty' k2 = Trie_Get store_ab (Some 0) ty' k2"
    by blast+
  from rg r have "Trie_Get store_ab_ac_removed (Some 6) T_uint32 ''ac'' = None" by simp
  with c i p r g old new rem pers show ?thesis by simp
qed




text \<open>
  C9. Every trie that \<open>remove\<close> returns is claimed to have a null root when the root
  would be without value and without children, also for the empty key.
  \<open>Remove("")\<close> on the trie that maps only the empty key returns the root 1, a node
  with no value and no children. \<open>Remove("a")\<close> on the trie that maps only \<open>"a"\<close> returns
  the null root: the branch for a non-empty key tests the new root, the branch for the
  empty key does not.
\<close>

theorem Trie_Remove_empty_key_keeps_empty_root:
  "Trie_Put [] None '''' T_uint32 (5 :: nat) = (Some 0, store_root_value) \<and>
   Trie_Remove store_root_value (Some 0) '''' =
     Inr (Some 1, store_root_value @ [\<lparr>children = [], node_value = None\<rparr>]) \<and>
   Trie_Put [] None ''a'' T_uint32 (5 :: nat) =
     (Some 0, [\<lparr>children = [(CHR ''a'', 1)], node_value = None\<rparr>,
               \<lparr>children = [], node_value = Some (T_uint32, 5)\<rparr>]) \<and>
   Trie_Remove [\<lparr>children = [(CHR ''a'', 1)], node_value = None\<rparr>,
                \<lparr>children = [], node_value = Some (T_uint32, 5 :: nat)\<rparr>] (Some 0) ''a'' =
     Inr (None, [\<lparr>children = [(CHR ''a'', 1)], node_value = None\<rparr>,
                 \<lparr>children = [], node_value = Some (T_uint32, 5)\<rparr>,
                 \<lparr>children = [], node_value = None\<rparr>,
                 \<lparr>children = [], node_value = None\<rparr>])"
  by (simp add: Trie_Put_def Trie_Remove_def store_root_value_def Let_def)

end
